theory Spec2Isabelle
  imports Complex_Main "HOL-Library.AList"
begin

section \<open>Errors (errors module: createError, ErrorCodes)\<close>

text \<open>
  \<^verbatim>\<open>ErrorCodes\<close> is the table of the errors module; it has these five keys and no other.
  A call site that reads another property of the table, as the middleware chain does
  with \<^verbatim>\<open>ErrorCodes.MIDDLEWARE_ERROR\<close>, reads \<^verbatim>\<open>undefined\<close>: the code handed to
  \<^verbatim>\<open>createError\<close> is an optional value.
\<close>

datatype ErrorCode = INVALID_CONFIG | DATA_FETCH_FAILED | VALIDATION_FAILED
  | AUTH_REQUIRED | OPTIMIZATION_FAILED

text \<open>
  \<^verbatim>\<open>createError\<close> builds an \<^verbatim>\<open>Error\<close> object from a code, a message, optional details
  and a solution text. The solution text is a constant of each call site and plays no role
  in any property, so the record keeps code, message and details. A plain
  \<^verbatim>\<open>new Error(msg)\<close> thrown by user code has no code and no details.
\<close>

record FullError =
  code :: "ErrorCode option"
  message :: string
  details :: "string option"

definition createError :: "ErrorCode option \<Rightarrow> string \<Rightarrow> string option \<Rightarrow> FullError" where
  "createError c m d = \<lparr>code = c, message = m, details = d\<rparr>"

definition plainError :: "string \<Rightarrow> FullError" where
  "plainError m = \<lparr>code = None, message = m, details = None\<rparr>"

section \<open>Routing types (routing/types.ts)\<close>

datatype RouteSegment =
    Static string
  | Dynamic string
  | CatchAll string
  | Optional string

datatype Phase = Before | After

text \<open>
  A middleware handler is an async function of the context and the continuation
  \<^verbatim>\<open>next\<close>. Its behaviour is modelled as the sequence of steps it performs: awaiting
  \<^verbatim>\<open>next()\<close>, or throwing \<^verbatim>\<open>new Error(msg)\<close>; reaching the end of the sequence is a normal
  return.
\<close>

datatype Step = AwaitNext | Throw string

record Middleware =
  name :: string
  handler :: "Step list"
  phase :: "Phase option"

record Group =
  group_middleware :: "Middleware list option"

text \<open>
  \<^verbatim>\<open>RouteConfig\<close>: the layout and the nested children are never read by the router and
  are left out; the page is kept as an opaque identifier.
\<close>

record RouteConfig =
  path :: string
  page :: "string option"
  middleware :: "Middleware list option"
  group :: "Group option"

type_synonym RouteParams = "(string \<times> string) list"

record RouteMatch =
  route :: RouteConfig
  params :: RouteParams
  score :: int

text \<open>
  \<^verbatim>\<open>RouteNode\<close>: the children are a JavaScript \<^verbatim>\<open>Map\<close>, which iterates in insertion order
  and holds each key once: an association list.
\<close>

datatype RouteNode = RouteNode
  (segment: RouteSegment)
  (config: "RouteConfig option")
  (children: "(string \<times> RouteNode) list")
  (node_middleware: "Middleware list")

section \<open>Segment parser (routing/parser.ts)\<close>

text \<open>
  \<^verbatim>\<open>path.split('/')\<close>: the pieces between separators, empty pieces included;
  \<^verbatim>\<open>.filter(Boolean)\<close> then drops the empty strings.
\<close>

fun split :: "char \<Rightarrow> string \<Rightarrow> string list" where
  "split sep [] = [[]]"
| "split sep (c # cs) =
     (if c = sep then [] # split sep cs
      else (case split sep cs of
              w # ws \<Rightarrow> (c # w) # ws
            | [] \<Rightarrow> [[c]]))"

definition pathSegments :: "string \<Rightarrow> string list" where
  "pathSegments p = filter (\<lambda>s. s \<noteq> []) (split (CHR ''/'') p)"

text \<open>\<^verbatim>\<open>segments.join('/')\<close>.\<close>

fun join :: "string \<Rightarrow> string list \<Rightarrow> string" where
  "join sep [] = []"
| "join sep [x] = x"
| "join sep (x # y # zs) = x @ sep @ join sep (y # zs)"

text \<open>
  The three regular expressions, each as the function from a string to the text of its
  capture group (\<open>None\<close> when the string does not match). In all three the group
  \<^verbatim>\<open>([^\]]+)\<close> is followed by a closing bracket, so the group is the longest run of
  characters other than \<^verbatim>\<open>]\<close> and must not be empty.
\<close>

definition notClose :: "char \<Rightarrow> bool" where
  "notClose c = (c \<noteq> CHR '']'')"

text \<open>\<^verbatim>\<open>/^\[([^\]]+)\]$/\<close>\<close>

definition DYNAMIC_SEGMENT_REGEX :: "string \<Rightarrow> string option" where
  "DYNAMIC_SEGMENT_REGEX s =
     (case s of
        c # t \<Rightarrow>
          if c = CHR ''['' \<and> takeWhile notClose t \<noteq> [] \<and> dropWhile notClose t = '']''
          then Some (takeWhile notClose t) else None
      | [] \<Rightarrow> None)"

text \<open>\<^verbatim>\<open>/^\[\[([^\]]+)\]\]$/\<close>\<close>

definition CATCH_ALL_SEGMENT_REGEX :: "string \<Rightarrow> string option" where
  "CATCH_ALL_SEGMENT_REGEX s =
     (case s of
        c # d # t \<Rightarrow>
          if c = CHR ''['' \<and> d = CHR ''['' \<and> takeWhile notClose t \<noteq> []
             \<and> dropWhile notClose t = '']]''
          then Some (takeWhile notClose t) else None
      | _ \<Rightarrow> None)"

text \<open>
  \<^verbatim>\<open>/^\[\[?([^\]]+)\]?\]$/\<close>: after the first bracket the optional second bracket is tried
  first (greedy), and given back when the rest does not match. \<open>optionalRest\<close> is the part
  \<^verbatim>\<open>([^\]]+)\]?\]$\<close>.
\<close>

definition optionalRest :: "string \<Rightarrow> string option" where
  "optionalRest t =
     (if takeWhile notClose t \<noteq> []
         \<and> (dropWhile notClose t = '']]'' \<or> dropWhile notClose t = '']'')
      then Some (takeWhile notClose t) else None)"

definition OPTIONAL_SEGMENT_REGEX :: "string \<Rightarrow> string option" where
  "OPTIONAL_SEGMENT_REGEX s =
     (case s of
        c # t \<Rightarrow>
          if c = CHR ''['' then
            (case t of
               d # u \<Rightarrow>
                 if d = CHR ''['' then
                   (case optionalRest u of Some n \<Rightarrow> Some n | None \<Rightarrow> optionalRest t)
                 else optionalRest t
             | [] \<Rightarrow> None)
          else None
      | [] \<Rightarrow> None)"

text \<open>\<^verbatim>\<open>/[^a-zA-Z0-9_]/.test(name)\<close> finds a character outside this class.\<close>

definition isNameChar :: "char \<Rightarrow> bool" where
  "isNameChar c =
     (c \<in> set ''abcdefghijklmnopqrstuvwxyzABCDEFGHIJKLMNOPQRSTUVWXYZ0123456789_'')"

definition invalidName :: "string \<Rightarrow> FullError" where
  "invalidName n =
     createError (Some INVALID_CONFIG) (''Invalid route parameter name: '' @ n)
       (Some ''Route parameters must contain only alphanumeric characters and underscores'')"

definition validateSegmentName :: "string \<Rightarrow> FullError + unit" where
  "validateSegmentName n =
     (if n = [] \<or> list_ex (\<lambda>c. \<not> isNameChar c) n
      then Inl (invalidName n)
      else Inr ())"

definition createStaticSegment :: "string \<Rightarrow> RouteSegment" where
  "createStaticSegment v = Static v"

definition createDynamicSegment :: "string \<Rightarrow> FullError + RouteSegment" where
  "createDynamicSegment n =
     (case validateSegmentName n of Inl e \<Rightarrow> Inl e | Inr _ \<Rightarrow> Inr (Dynamic n))"

definition createCatchAllSegment :: "string \<Rightarrow> FullError + RouteSegment" where
  "createCatchAllSegment n =
     (case validateSegmentName n of Inl e \<Rightarrow> Inl e | Inr _ \<Rightarrow> Inr (CatchAll n))"

definition createOptionalSegment :: "string \<Rightarrow> FullError + RouteSegment" where
  "createOptionalSegment n =
     (case validateSegmentName n of Inl e \<Rightarrow> Inl e | Inr _ \<Rightarrow> Inr (Optional n))"

text \<open>\<^verbatim>\<open>parseSegment\<close> tries the dynamic, the catch-all and the optional pattern, in this order.\<close>

definition parseSegment :: "string \<Rightarrow> FullError + RouteSegment" where
  "parseSegment s =
     (case DYNAMIC_SEGMENT_REGEX s of
        Some n \<Rightarrow> createDynamicSegment n
      | None \<Rightarrow>
          (case CATCH_ALL_SEGMENT_REGEX s of
             Some n \<Rightarrow> createCatchAllSegment n
           | None \<Rightarrow>
               (case OPTIONAL_SEGMENT_REGEX s of
                  Some n \<Rightarrow> createOptionalSegment n
                | None \<Rightarrow> Inr (createStaticSegment s))))"

text \<open>\<^verbatim>\<open>segments.map(parseSegment)\<close>: the first segment that throws ends the call.\<close>

fun parseSegments :: "string list \<Rightarrow> FullError + RouteSegment list" where
  "parseSegments [] = Inr []"
| "parseSegments (s # ss) =
     (case parseSegment s of
        Inl e \<Rightarrow> Inl e
      | Inr g \<Rightarrow> (case parseSegments ss of Inl e \<Rightarrow> Inl e | Inr gs \<Rightarrow> Inr (g # gs)))"

definition parseRoute :: "string \<Rightarrow> FullError + RouteSegment list" where
  "parseRoute p = parseSegments (pathSegments p)"

section \<open>Route tree (Router.addRoute)\<close>

text \<open>The router starts from a root node with the empty static segment.\<close>

definition emptyTree :: RouteNode where
  "emptyTree = RouteNode (Static []) None [] []"

text \<open>
  The key of a child: \<^verbatim>\<open>segment.type === 'static' ? segment.value : segment.type\<close>.
\<close>

definition segmentKey :: "RouteSegment \<Rightarrow> string" where
  "segmentKey s =
     (case s of
        Static v \<Rightarrow> v
      | Dynamic n \<Rightarrow> ''dynamic''
      | CatchAll n \<Rightarrow> ''catchAll''
      | Optional n \<Rightarrow> ''optional'')"

definition newNode :: "RouteSegment \<Rightarrow> RouteNode" where
  "newNode seg = RouteNode seg None [] []"

definition routeMiddleware :: "RouteConfig \<Rightarrow> Middleware list" where
  "routeMiddleware cfg = (case middleware cfg of Some ms \<Rightarrow> ms | None \<Rightarrow> [])"

definition groupMiddleware :: "RouteConfig \<Rightarrow> Middleware list" where
  "groupMiddleware cfg =
     (case group cfg of
        Some g \<Rightarrow> (case group_middleware g of Some ms \<Rightarrow> ms | None \<Rightarrow> [])
      | None \<Rightarrow> [])"

text \<open>
  The walk of \<^verbatim>\<open>addRoute\<close> over the parsed segments. The source follows a pointer
  \<^verbatim>\<open>current\<close> down the tree, creating the missing child under its key, and at the end
  sets the config of the node reached and pushes the route's and the group's middleware
  onto its list. The tree has no sharing, so the walk is the rebuilding of the path.
  \<open>AList.update\<close> replaces the value of a key in place and puts a new key last, as
  \<^verbatim>\<open>Map.set\<close> does.
\<close>

fun insertRoute :: "RouteSegment list \<Rightarrow> RouteConfig \<Rightarrow> RouteNode \<Rightarrow> RouteNode" where
  "insertRoute [] cfg node =
     RouteNode (segment node) (Some cfg) (children node)
       (node_middleware node @ routeMiddleware cfg @ groupMiddleware cfg)"
| "insertRoute (seg # segs) cfg node =
     (let key = segmentKey seg;
          child = (case map_of (children node) key of
                     Some c \<Rightarrow> c
                   | None \<Rightarrow> newNode seg)
      in RouteNode (segment node) (config node)
           (AList.update key (insertRoute segs cfg child) (children node))
           (node_middleware node))"

text \<open>
  \<^verbatim>\<open>addRoute\<close> returns the error thrown, if any, and the route tree after the call.
  \<^verbatim>\<open>parseRoute\<close> runs to its end before the walk starts.
\<close>

definition addRoute :: "RouteConfig \<Rightarrow> RouteNode \<Rightarrow> FullError option \<times> RouteNode" where
  "addRoute cfg tree =
     (case parseRoute (path cfg) of
        Inl e \<Rightarrow> (Some e, tree)
      | Inr segments \<Rightarrow> (None, insertRoute segments cfg tree))"

section \<open>Route matcher (matchRoute, matchSegments)\<close>

text \<open>
  \<^verbatim>\<open>matchSegments\<close> pushes its matches onto the array it is given; the function returns
  the matches pushed, in the order of the pushes. \<^verbatim>\<open>{ ...params, [name]: value }\<close> is
  \<open>AList.update name value params\<close>. The three loops run over the children in the
  order of the \<^verbatim>\<open>Map\<close>; there is no loop for optional children.
\<close>

fun matchSegments :: "string list \<Rightarrow> RouteNode \<Rightarrow> RouteParams \<Rightarrow> int \<Rightarrow> RouteMatch list" where
  "matchSegments [] node ps sc =
     (case config node of
        Some c \<Rightarrow> [\<lparr>route = c, params = ps, score = sc\<rparr>]
      | None \<Rightarrow> [])"
| "matchSegments (seg # remaining) node ps sc =
     concat (map (\<lambda>kc.
        case segment (snd kc) of
          Static v \<Rightarrow>
            if v = seg then matchSegments remaining (snd kc) ps (sc + 100) else []
        | _ \<Rightarrow> []) (children node))
     @ concat (map (\<lambda>kc.
        case segment (snd kc) of
          Dynamic n \<Rightarrow>
            matchSegments remaining (snd kc) (AList.update n seg ps) (sc + 50)
        | _ \<Rightarrow> []) (children node))
     @ concat (map (\<lambda>kc.
        case segment (snd kc) of
          CatchAll n \<Rightarrow>
            matchSegments [] (snd kc)
              (AList.update n (join ''/'' (seg # remaining)) ps) (sc + 10)
        | _ \<Rightarrow> []) (children node))"

text \<open>
  \<^verbatim>\<open>matches.sort((a, b) => b.score - a.score)[0]\<close>: the sort is stable, so the result is
  the first match pushed among those of the highest score.
\<close>

definition matchRoute :: "string \<Rightarrow> RouteNode \<Rightarrow> RouteMatch option" where
  "matchRoute pathname routeTree =
     (let segments = pathSegments pathname;
          matches = matchSegments segments routeTree [] 0
      in case sort_key (\<lambda>m. - score m) matches of
           [] \<Rightarrow> None
         | m # ms \<Rightarrow> Some m)"

section \<open>Middleware chain (routing/middleware.ts)\<close>

text \<open>
  A chain is its array of middlewares. \<^verbatim>\<open>add\<close> pushes a middleware as it is,
  \<^verbatim>\<open>addBefore\<close> puts it first with the phase \<^verbatim>\<open>'before'\<close>, \<^verbatim>\<open>addAfter\<close> pushes it with the
  phase \<^verbatim>\<open>'after'\<close>.
\<close>

definition chain_add :: "Middleware \<Rightarrow> Middleware list \<Rightarrow> Middleware list" where
  "chain_add m ms = ms @ [m]"

definition addBefore :: "Middleware \<Rightarrow> Middleware list \<Rightarrow> Middleware list" where
  "addBefore m ms = m\<lparr>phase := Some Before\<rparr> # ms"

definition addAfter :: "Middleware \<Rightarrow> Middleware list \<Rightarrow> Middleware list" where
  "addAfter m ms = ms @ [m\<lparr>phase := Some After\<rparr>]"

text \<open>
  The error that \<^verbatim>\<open>next\<close> throws from its \<^verbatim>\<open>catch\<close> block: the message names the
  middleware whose handler was awaited there, the details are the message of the error
  caught. Its code is \<^verbatim>\<open>ErrorCodes.MIDDLEWARE_ERROR\<close>, a key the table does not have.
\<close>

definition middlewareFailed :: "string \<Rightarrow> FullError \<Rightarrow> FullError" where
  "middlewareFailed n e =
     createError None (''Middleware '' @ [CHR 0x27] @ n @ [CHR 0x27] @ '' failed'')
       (Some (message e))"

text \<open>
  \<^verbatim>\<open>executeChain\<close> keeps one counter \<^verbatim>\<open>index\<close> for all the calls of its closure
  \<^verbatim>\<open>next\<close>. \<open>runSteps ms ss (index, tr)\<close> runs the steps \<open>ss\<close> of a handler body in the
  chain \<open>ms\<close>; the state is the counter and the names of the handlers started so far.
  The step \<open>AwaitNext\<close> is the body of \<^verbatim>\<open>next\<close>: past the end of the chain it returns;
  otherwise it takes the middleware at \<^verbatim>\<open>index\<close>, increments the counter and awaits the
  handler, and what the handler throws is caught and thrown again as the error of
  \<open>middlewareFailed\<close>. An error thrown by a step ends the body it stands in.
\<close>

function runSteps :: "Middleware list \<Rightarrow> Step list \<Rightarrow> nat \<times> string list
    \<Rightarrow> FullError option \<times> nat \<times> string list" where
  "runSteps ms [] st = (None, st)"
| "runSteps ms (Throw msg # ss) st = (Some (plainError msg), st)"
| "runSteps ms (AwaitNext # ss) (index, tr) =
     (if index \<ge> length ms then runSteps ms ss (index, tr)
      else (case runSteps ms (handler (ms ! index)) (Suc index, tr @ [name (ms ! index)]) of
              (Some e, st') \<Rightarrow> (Some (middlewareFailed (name (ms ! index)) e), st')
            | (None, st') \<Rightarrow> runSteps ms ss st'))"
  by pat_completeness auto

lemma runSteps_index_mono:
  "runSteps_dom (ms, ss, st) \<Longrightarrow> fst st \<le> fst (snd (runSteps ms ss st))"
proof (induction ms ss st rule: runSteps.pinduct)
  case (1 ms st)
  then show ?case by (simp add: runSteps.psimps)
next
  case (2 ms msg ss st)
  then show ?case by (simp add: runSteps.psimps)
next
  case (3 ms ss index tr)
  then show ?case
    by (auto simp: runSteps.psimps split: prod.splits option.splits)
qed

termination runSteps
proof (relation "measures [\<lambda>(ms, ss, st). length ms - fst st, \<lambda>(ms, ss, st). length ss]", goal_cases)
  case 1
  then show ?case by simp
next
  case 2
  then show ?case by simp
next
  case 3
  then show ?case by auto
next
  case (4 ms ss index tr x y)
  from 4(4) have "Suc index \<le> fst (snd (runSteps ms (handler (ms ! index))
      (Suc index, tr @ [name (ms ! index)])))"
    using runSteps_index_mono by fastforce
  with 4(2) have "Suc index \<le> fst y"
    by (metis snd_conv)
  with 4(1) show ?case by auto
qed

text \<open>\<^verbatim>\<open>executeChain\<close> is \<^verbatim>\<open>await next()\<close> with the counter at 0.\<close>

definition executeChain :: "Middleware list \<Rightarrow> string list \<Rightarrow> FullError option \<times> string list" where
  "executeChain ms tr = (case runSteps ms [AwaitNext] (0, tr) of (r, (i, tr')) \<Rightarrow> (r, tr'))"

text \<open>
  \<^verbatim>\<open>MiddlewareChain.execute\<close>: the chain of the middlewares whose phase is not
  \<^verbatim>\<open>'after'\<close>, then the chain of those whose phase is \<^verbatim>\<open>'after'\<close>. The result is the error
  the call rejects with, if any, and the names of the handlers started, in order.
\<close>

definition execute :: "Middleware list \<Rightarrow> FullError option \<times> string list" where
  "execute ms =
     (let beforeMiddlewares = filter (\<lambda>m. phase m \<noteq> Some After) ms;
          afterMiddlewares = filter (\<lambda>m. phase m = Some After) ms
      in case executeChain beforeMiddlewares [] of
           (Some e, tr) \<Rightarrow> (Some e, tr)
         | (None, tr) \<Rightarrow> executeChain afterMiddlewares tr)"

text \<open>
  The built-in middlewares and the chain that the constructor of \<^verbatim>\<open>Router\<close> sets up.
  Each of the three handlers awaits \<^verbatim>\<open>next\<close> once; the error boundary catches what
  \<^verbatim>\<open>next\<close> throws, logs it and throws it again unchanged, which leaves the error as it is.
  The writes to the console are not modelled.
\<close>

definition loggerMiddleware :: Middleware where
  "loggerMiddleware = \<lparr>name = ''logger'', handler = [AwaitNext], phase = None\<rparr>"

definition timingMiddleware :: Middleware where
  "timingMiddleware = \<lparr>name = ''timing'', handler = [AwaitNext], phase = None\<rparr>"

definition errorBoundaryMiddleware :: Middleware where
  "errorBoundaryMiddleware = \<lparr>name = ''errorBoundary'', handler = [AwaitNext], phase = None\<rparr>"

definition routerChain :: "Middleware list" where
  "routerChain =
     chain_add loggerMiddleware (chain_add timingMiddleware (chain_add errorBoundaryMiddleware []))"

section \<open>Data cache (data/cache.ts)\<close>

text \<open>
  Times are whole numbers of milliseconds, as \<^verbatim>\<open>Date.now()\<close> returns them, and a
  time-to-live is a whole number of milliseconds or \<^verbatim>\<open>Infinity\<close> (what
  \<^verbatim>\<open>getTTLFromStrategy\<close> returns for \<^verbatim>\<open>'force-cache'\<close>). The source computes in doubles;
  on whole numbers of magnitude below \<open>2 ^ 51\<close> the difference of two times, three quarters
  of a time-to-live and the comparisons are exact, and the model is about these. Fractional
  times-to-live and \<^verbatim>\<open>NaN\<close> are not modelled. Each operation reads the clock once, as
  the parameter \<open>now\<close>.
\<close>

datatype Number = Fin int | Infinity

text \<open>
  \<^verbatim>\<open>x > n\<close> and \<^verbatim>\<open>x > n * c\<close> for a finite \<open>x\<close> and a factor \<open>c > 0\<close>;
  \<^verbatim>\<open>Infinity * c\<close> is \<^verbatim>\<open>Infinity\<close>, which no finite number exceeds.
\<close>

fun exceeds :: "int \<Rightarrow> Number \<Rightarrow> bool" where
  "exceeds x (Fin n) = (x > n)"
| "exceeds x Infinity = False"

fun exceedsScaled :: "int \<Rightarrow> Number \<Rightarrow> real \<Rightarrow> bool" where
  "exceedsScaled x (Fin n) c = (real_of_int x > real_of_int n * c)"
| "exceedsScaled x Infinity c = False"

record 'a CacheEntry =
  data :: 'a
  timestamp :: int
  ttl :: Number
  tags :: "string list"
  isStale :: bool

text \<open>
  The state of a \<^verbatim>\<open>MemoryCache\<close>: the \<^verbatim>\<open>Map\<close> of entries and the \<^verbatim>\<open>Set\<close> of queued keys
  (both in insertion order, each key once), the flag, and the number of callbacks that
  \<^verbatim>\<open>setTimeout\<close> holds. The list \<open>revalidated\<close> is not a field of the class: it records
  the keys for which the per-entry callback of \<^verbatim>\<open>revalidate\<close> has run, the place left in
  the source for the call of the data fetcher.
\<close>

record 'a MemoryCache =
  cache :: "(string \<times> 'a CacheEntry) list"
  revalidationQueue :: "string list"
  isRevalidating :: bool
  timers :: nat
  revalidated :: "string list"

definition emptyCache :: "'a MemoryCache" where
  "emptyCache = \<lparr>cache = [], revalidationQueue = [], isRevalidating = False, timers = 0,
     revalidated = []\<rparr>"

definition isExpired :: "int \<Rightarrow> 'a CacheEntry \<Rightarrow> bool" where
  "isExpired now entry =
     (if ttl entry = Fin 0 then False
      else exceeds (now - timestamp entry) (ttl entry))"

definition isStale_entry :: "int \<Rightarrow> 'a CacheEntry \<Rightarrow> bool" where
  "isStale_entry now entry =
     (if ttl entry = Fin 0 then False
      else exceedsScaled (now - timestamp entry) (ttl entry) 0.75)"

definition cache_set :: "string \<Rightarrow> 'a CacheEntry \<Rightarrow> 'a MemoryCache \<Rightarrow> 'a MemoryCache" where
  "cache_set key entry c = c\<lparr>cache := AList.update key entry (cache c)\<rparr>"

definition cache_delete :: "string \<Rightarrow> 'a MemoryCache \<Rightarrow> 'a MemoryCache" where
  "cache_delete key c = c\<lparr>cache := AList.delete key (cache c)\<rparr>"

definition cache_clear :: "'a MemoryCache \<Rightarrow> 'a MemoryCache" where
  "cache_clear c = c\<lparr>cache := []\<rparr>"

text \<open>\<^verbatim>\<open>queueRevalidation\<close>: a key already queued changes nothing; a new key is added and a timer set.\<close>

definition queueRevalidation :: "string \<Rightarrow> 'a MemoryCache \<Rightarrow> 'a MemoryCache" where
  "queueRevalidation key c =
     (if key \<in> set (revalidationQueue c) then c
      else c\<lparr>revalidationQueue := revalidationQueue c @ [key], timers := Suc (timers c)\<rparr>)"

text \<open>
  \<^verbatim>\<open>get\<close> returns the entry or \<^verbatim>\<open>undefined\<close>, and the cache after the call.
  \<^verbatim>\<open>entry.isStale = true\<close> writes into the entry that the \<^verbatim>\<open>Map\<close> holds.
\<close>

definition cache_get :: "int \<Rightarrow> string \<Rightarrow> 'a MemoryCache
    \<Rightarrow> 'a CacheEntry option \<times> 'a MemoryCache" where
  "cache_get now key c =
     (case map_of (cache c) key of
        None \<Rightarrow> (None, c)
      | Some entry \<Rightarrow>
          if isExpired now entry then (None, cache_delete key c)
          else if isStale_entry now entry then
            (Some (entry\<lparr>isStale := True\<rparr>),
             queueRevalidation key (cache_set key (entry\<lparr>isStale := True\<rparr>) c))
          else (Some entry, c))"

text \<open>
  \<^verbatim>\<open>revalidate\<close> up to its \<^verbatim>\<open>await\<close>: with the flag set it returns at once. Otherwise
  it sets the flag, selects the entries (all of them, or those that carry one of the
  tags) and runs the per-entry callback on each, which removes the key from the queue.
  The callbacks have no \<^verbatim>\<open>await\<close>, so they all run inside the call. The \<^verbatim>\<open>finally\<close>
  block runs once the awaited promise is settled, after the caller has got control back:
  it is \<open>revalidate_settled\<close>.
\<close>

definition toRevalidate :: "string list option \<Rightarrow> (string \<times> 'a CacheEntry) list
    \<Rightarrow> (string \<times> 'a CacheEntry) list" where
  "toRevalidate tgs entries =
     (case tgs of
        Some ts \<Rightarrow> filter (\<lambda>ke. list_ex (\<lambda>tag. tag \<in> set (tags (snd ke))) ts) entries
      | None \<Rightarrow> entries)"

definition revalidateEntry :: "string \<Rightarrow> 'a MemoryCache \<Rightarrow> 'a MemoryCache" where
  "revalidateEntry key c =
     c\<lparr>revalidationQueue := removeAll key (revalidationQueue c),
       revalidated := revalidated c @ [key]\<rparr>"

definition revalidate :: "string list option \<Rightarrow> 'a MemoryCache \<Rightarrow> 'a MemoryCache" where
  "revalidate tgs c =
     (if isRevalidating c then c
      else fold revalidateEntry (map fst (toRevalidate tgs (cache c)))
             (c\<lparr>isRevalidating := True\<rparr>))"

definition revalidate_settled :: "'a MemoryCache \<Rightarrow> 'a MemoryCache" where
  "revalidate_settled c = c\<lparr>isRevalidating := False\<rparr>"

text \<open>The callback that \<^verbatim>\<open>queueRevalidation\<close> hands to \<^verbatim>\<open>setTimeout\<close>.\<close>

definition timerFired :: "'a MemoryCache \<Rightarrow> 'a MemoryCache" where
  "timerFired c =
     (if revalidationQueue c \<noteq> [] then revalidate None (c\<lparr>timers := timers c - 1\<rparr>)
      else c\<lparr>timers := timers c - 1\<rparr>)"

text \<open>
  \<^verbatim>\<open>createCacheEntry\<close> and \<^verbatim>\<open>getTTLFromStrategy\<close>. A strategy is one of the strategy
  names or a number.
\<close>

datatype CacheStrategy = Named string | Numeric Number

record CacheConfig =
  strategy :: CacheStrategy
  config_tags :: "string list option"

definition getTTLFromStrategy :: "string \<Rightarrow> Number" where
  "getTTLFromStrategy s =
     (if s = ''no-cache'' then Fin 0
      else if s = ''force-cache'' then Infinity
      else if s = ''stale-while-revalidate'' then Fin (60 * 1000)
      else if s = ''revalidate-on-mount'' then Fin 0
      else Fin (300 * 1000))"

definition createCacheEntry :: "int \<Rightarrow> 'a \<Rightarrow> CacheConfig \<Rightarrow> 'a CacheEntry" where
  "createCacheEntry now d cfg =
     \<lparr>data = d, timestamp = now,
      ttl = (case strategy cfg of Numeric n \<Rightarrow> n | Named s \<Rightarrow> getTTLFromStrategy s),
      tags = (case config_tags cfg of Some ts \<Rightarrow> ts | None \<Rightarrow> []),
      isStale = False\<rparr>"

section \<open>Notions used in the statements\<close>

text \<open>
  All the nodes of a tree, the node itself first; the node reached from a node by a
  list of keys; and the tree that a router holds after a list of \<^verbatim>\<open>addRoute\<close> calls
  (a call that throws leaves the tree it found).
\<close>

fun nodes :: "RouteNode \<Rightarrow> RouteNode list" where
  "nodes (RouteNode s c cs m) = RouteNode s c cs m # concat (map (\<lambda>kc. nodes (snd kc)) cs)"

fun lookupNode :: "string list \<Rightarrow> RouteNode \<Rightarrow> RouteNode option" where
  "lookupNode [] node = Some node"
| "lookupNode (k # ks) node =
     (case map_of (children node) k of
        None \<Rightarrow> None
      | Some child \<Rightarrow> lookupNode ks child)"

fun registerAll :: "RouteConfig list \<Rightarrow> RouteNode \<Rightarrow> RouteNode" where
  "registerAll [] tree = tree"
| "registerAll (cfg # cfgs) tree = registerAll cfgs (snd (addRoute cfg tree))"

text \<open>
  The kinds of segments, the type tags that serve as keys, and the invariant of the tree
  that \<^verbatim>\<open>addRoute\<close> keeps: in every node the keys of the children are distinct, and each
  child stands under the key of its own segment.
\<close>

definition isDynamic :: "RouteSegment \<Rightarrow> bool" where
  "isDynamic s = (case s of Dynamic n \<Rightarrow> True | _ \<Rightarrow> False)"

definition isOptional :: "RouteSegment \<Rightarrow> bool" where
  "isOptional s = (case s of Optional n \<Rightarrow> True | _ \<Rightarrow> False)"

definition isCatchAll :: "RouteSegment \<Rightarrow> bool" where
  "isCatchAll s = (case s of CatchAll n \<Rightarrow> True | _ \<Rightarrow> False)"

definition typeTags :: "string set" where
  "typeTags = {''dynamic'', ''optional'', ''catchAll''}"

fun wellKeyed :: "RouteNode \<Rightarrow> bool" where
  "wellKeyed (RouteNode s c cs m) =
     (distinct (map fst cs) \<and>
      list_all (\<lambda>kc. fst kc = segmentKey (segment (snd kc)) \<and> wellKeyed (snd kc)) cs)"

text \<open>A handler body that throws nothing itself.\<close>

definition noThrow :: "Step list \<Rightarrow> bool" where
  "noThrow ss = list_all (\<lambda>s. s = AwaitNext) ss"

section \<open>Sample inputs\<close>

definition plainRoute :: "string \<Rightarrow> RouteConfig" where
  "plainRoute p = \<lparr>path = p, page = None, middleware = None, group = None\<rparr>"

definition mw :: "string \<Rightarrow> Step list \<Rightarrow> Phase option \<Rightarrow> Middleware" where
  "mw n h p = \<lparr>name = n, handler = h, phase = p\<rparr>"

definition withMiddleware :: "string \<Rightarrow> string \<Rightarrow> RouteConfig" where
  "withMiddleware p n =
     \<lparr>path = p, page = None, middleware = Some [mw n [AwaitNext] None], group = None\<rparr>"

definition postsA :: RouteConfig where
  "postsA = withMiddleware ''/posts/[a]'' ''first''"

definition postsB :: RouteConfig where
  "postsB = withMiddleware ''/posts/[b]'' ''second''"

definition usersTree :: RouteNode where
  "usersTree = registerAll [plainRoute ''/users/[id]''] emptyTree"

definition sampleEntry :: "int \<Rightarrow> Number \<Rightarrow> string list \<Rightarrow> bool \<Rightarrow> nat CacheEntry" where
  "sampleEntry ts t tgs st = \<lparr>data = 0, timestamp = ts, ttl = t, tags = tgs, isStale = st\<rparr>"

definition twoKeyCache :: "nat MemoryCache" where
  "twoKeyCache =
     cache_set ''b'' (sampleEntry 0 (Fin 1000) [''posts''] False)
       (cache_set ''a'' (sampleEntry 0 (Fin 1000) [''users''] False) emptyCache)"

text \<open>
  Entries made by \<^verbatim>\<open>createCacheEntry\<close> at time 0 for three of the named strategies,
  each stored under the key \<^verbatim>\<open>k\<close> of a new cache.
\<close>

definition noCacheEntry :: "nat CacheEntry" where
  "noCacheEntry = createCacheEntry 0 0 \<lparr>strategy = Named ''no-cache'', config_tags = None\<rparr>"

definition noCacheCache :: "nat MemoryCache" where
  "noCacheCache = cache_set ''k'' noCacheEntry emptyCache"

definition onMountEntry :: "nat CacheEntry" where
  "onMountEntry =
     createCacheEntry 0 0 \<lparr>strategy = Named ''revalidate-on-mount'', config_tags = None\<rparr>"

definition onMountCache :: "nat MemoryCache" where
  "onMountCache = cache_set ''k'' onMountEntry emptyCache"

definition forceCacheEntry :: "nat CacheEntry" where
  "forceCacheEntry =
     createCacheEntry 0 0 \<lparr>strategy = Named ''force-cache'', config_tags = None\<rparr>"

definition forceCacheCache :: "nat MemoryCache" where
  "forceCacheCache = cache_set ''k'' forceCacheEntry emptyCache"

section \<open>The parser\<close>

text \<open>
  Claim C1 does not hold of the code. The catch-all pattern matches \<^verbatim>\<open>[[...rest]]\<close> and
  captures the name with its three dots; \<^verbatim>\<open>validateSegmentName\<close> rejects the dots, so
  \<^verbatim>\<open>parseSegment\<close> throws, \<^verbatim>\<open>addRoute\<close> of \<^verbatim>\<open>/files/[[...rest]]\<close> throws and leaves the tree
  empty, and \<^verbatim>\<open>/files/a/b/c\<close> has no match.
\<close>

theorem catch_all_pattern_rejected:
  "CATCH_ALL_SEGMENT_REGEX ''[[...rest]]'' = Some ''...rest'' \<and>
   parseSegment ''[[...rest]]'' = Inl (invalidName ''...rest'') \<and>
   addRoute (plainRoute ''/files/[[...rest]]'') emptyTree = (Some (invalidName ''...rest''), emptyTree) \<and>
   matchRoute ''/files/a/b/c'' (registerAll [plainRoute ''/files/[[...rest]]''] emptyTree) = None"
  by code_simp

text \<open>
  Written without the dots, the segment is a catch-all and binds the rest of the path.
\<close>

lemma catch_all_without_dots:
  "parseRoute ''/files/[[rest]]'' = Inr [Static ''files'', CatchAll ''rest''] \<and>
   matchRoute ''/files/a/b/c'' (registerAll [plainRoute ''/files/[[rest]]''] emptyTree)
     = Some \<lparr>route = plainRoute ''/files/[[rest]]'', params = [(''rest'', ''a/b/c'')], score = 110\<rparr>"
  by code_simp

text \<open>
  A component \<^verbatim>\<open>[n]\<close> or \<^verbatim>\<open>[[n]]\<close> whose name \<open>n\<close> is not empty, has no closing bracket
  and has a character outside letters, digits and underscore is rejected with the
  invalid-name error; every error of the parser has the code \<^verbatim>\<open>INVALID_CONFIG\<close>; a
  component that does not start with a bracket is a static segment.
\<close>

lemma takeWhile_notClose_name:
  "CHR '']'' \<notin> set n \<Longrightarrow> takeWhile notClose (n @ CHR '']'' # r) = n"
  by (induction n) (auto simp: notClose_def)

lemma dropWhile_notClose_name:
  "CHR '']'' \<notin> set n \<Longrightarrow> dropWhile notClose (n @ CHR '']'' # r) = CHR '']'' # r"
  by (induction n) (auto simp: notClose_def)

lemma validateSegmentName_invalid:
  "list_ex (\<lambda>c. \<not> isNameChar c) n \<Longrightarrow> validateSegmentName n = Inl (invalidName n)"
  by (simp add: validateSegmentName_def)

lemma parseSegment_single_brackets:
  assumes "n \<noteq> []" and "CHR '']'' \<notin> set n" and "list_ex (\<lambda>c. \<not> isNameChar c) n"
  shows "parseSegment (''['' @ n @ '']'') = Inl (invalidName n)"
proof -
  have "DYNAMIC_SEGMENT_REGEX (''['' @ n @ '']'') = Some n"
    using assms(1,2)
    by (simp add: DYNAMIC_SEGMENT_REGEX_def takeWhile_notClose_name dropWhile_notClose_name)
  then show ?thesis
    using assms(3)
    by (simp add: parseSegment_def createDynamicSegment_def validateSegmentName_invalid)
qed

lemma parseSegment_double_brackets:
  assumes "n \<noteq> []" and "CHR '']'' \<notin> set n" and "list_ex (\<lambda>c. \<not> isNameChar c) n"
  shows "parseSegment (''[['' @ n @ '']]'') = Inl (invalidName n)"
proof -
  have "CHR '']'' \<notin> set (CHR ''['' # n)"
    using assms(2) by simp
  then have "dropWhile notClose ((CHR ''['' # n) @ CHR '']'' # '']'') = '']]''"
    by (rule dropWhile_notClose_name)
  then have "DYNAMIC_SEGMENT_REGEX (''[['' @ n @ '']]'') = None"
    by (simp add: DYNAMIC_SEGMENT_REGEX_def)
  moreover have "CATCH_ALL_SEGMENT_REGEX (''[['' @ n @ '']]'') = Some n"
    using assms(1,2)
    by (simp add: CATCH_ALL_SEGMENT_REGEX_def takeWhile_notClose_name dropWhile_notClose_name)
  ultimately show ?thesis
    using assms(3)
    by (simp add: parseSegment_def createCatchAllSegment_def validateSegmentName_invalid)
qed

text \<open>
  So no component of the form \<^verbatim>\<open>[[...name]]\<close> is ever accepted: the dots are part of the
  name captured.
\<close>

lemma dotted_catch_all_rejected:
  assumes "CHR '']'' \<notin> set n"
  shows "parseSegment (''[[...'' @ n @ '']]'') = Inl (invalidName (''...'' @ n))"
proof -
  have "list_ex (\<lambda>c. \<not> isNameChar c) (''...'' @ n)"
    by (simp add: isNameChar_def)
  moreover have "CHR '']'' \<notin> set (''...'' @ n)"
    using assms by simp
  ultimately have "parseSegment (''[['' @ (''...'' @ n) @ '']]'') = Inl (invalidName (''...'' @ n))"
    by (intro parseSegment_double_brackets) simp_all
  then show ?thesis by simp
qed

lemma parseSegment_error_code:
  "parseSegment s = Inl e \<Longrightarrow> code e = Some INVALID_CONFIG"
  by (auto simp: parseSegment_def createDynamicSegment_def createCatchAllSegment_def
      createOptionalSegment_def createStaticSegment_def validateSegmentName_def invalidName_def
      createError_def split: option.splits if_splits)

lemma parseSegments_error:
  "s \<in> set ss \<Longrightarrow> parseSegment s = Inl e \<Longrightarrow>
   \<exists>e'. parseSegments ss = Inl e' \<and> code e' = Some INVALID_CONFIG"
proof (induction ss)
  case Nil
  then show ?case by simp
next
  case (Cons a ss)
  show ?case
  proof (cases "parseSegment a")
    case (Inl ea)
    then show ?thesis by (simp add: parseSegment_error_code)
  next
    case (Inr g)
    with Cons.prems have "s \<in> set ss" by auto
    with Cons.IH Cons.prems(2) obtain e' where "parseSegments ss = Inl e'" "code e' = Some INVALID_CONFIG"
      by blast
    with Inr show ?thesis by simp
  qed
qed

lemma parseSegment_static:
  "s \<noteq> [] \<Longrightarrow> hd s \<noteq> CHR ''['' \<Longrightarrow> parseSegment s = Inr (Static s)"
  by (cases s)
    (simp_all add: parseSegment_def DYNAMIC_SEGMENT_REGEX_def CATCH_ALL_SEGMENT_REGEX_def
      OPTIONAL_SEGMENT_REGEX_def createStaticSegment_def split: list.splits)

lemma parseSegments_static:
  "\<forall>s \<in> set ss. s \<noteq> [] \<and> hd s \<noteq> CHR ''['' \<Longrightarrow> parseSegments ss = Inr (map Static ss)"
  by (induction ss) (simp_all add: parseSegment_static)

lemma pathSegments_nonempty: "s \<in> set (pathSegments p) \<Longrightarrow> s \<noteq> []"
  by (simp add: pathSegments_def)

section \<open>The route tree\<close>

text \<open>
  Whenever \<^verbatim>\<open>addRoute\<close> throws, the tree is the one it was called on.
\<close>

lemma addRoute_atomic:
  "fst (addRoute cfg tree) = Some e \<Longrightarrow> snd (addRoute cfg tree) = tree"
  by (simp add: addRoute_def split: sum.splits)

text \<open>
  A route with such a component is rejected by \<^verbatim>\<open>addRoute\<close>, whatever the tree, and the
  tree is left as it was.
\<close>

lemma invalid_name_rejected_atomically:
  assumes "s \<in> set (pathSegments (path cfg))"
    and "s = ''['' @ n @ '']'' \<or> s = ''[['' @ n @ '']]''"
    and "n \<noteq> []" and "CHR '']'' \<notin> set n" and "list_ex (\<lambda>c. \<not> isNameChar c) n"
  shows "\<exists>e. code e = Some INVALID_CONFIG \<and> addRoute cfg tree = (Some e, tree)"
proof -
  have "parseSegment s = Inl (invalidName n)"
    using assms(2-5) parseSegment_single_brackets parseSegment_double_brackets by blast
  with assms(1) obtain e' where "parseSegments (pathSegments (path cfg)) = Inl e'"
    "code e' = Some INVALID_CONFIG"
    using parseSegments_error by blast
  then show ?thesis
    by (simp add: addRoute_def parseRoute_def)
qed

text \<open>
  Claim C9 does not hold of the code for the empty name. No pattern matches \<^verbatim>\<open>[]\<close> (the
  group needs one character), so the segment is static: \<^verbatim>\<open>addRoute\<close> of \<^verbatim>\<open>/[]\<close> throws
  nothing and adds a node to the tree.
\<close>

theorem empty_name_registered_as_static:
  "parseRoute ''/[]'' = Inr [Static ''[]''] \<and>
   addRoute (plainRoute ''/[]'') emptyTree =
     (None, RouteNode (Static []) None
              [(''[]'', RouteNode (Static ''[]'') (Some (plainRoute ''/[]'')) [] [])] [])"
  by code_simp

text \<open>
  The node that the keys of a route lead to after its registration, and the invariant.
\<close>

lemma segment_insertRoute [simp]: "segment (insertRoute segs cfg t) = segment t"
  by (cases segs) (simp_all add: Let_def)

lemma lookupNode_newNode:
  "ks \<noteq> [] \<Longrightarrow> lookupNode ks (newNode s) = None"
  by (cases ks) (simp_all add: newNode_def)

lemma lookupNode_insertRoute:
  "lookupNode (map segmentKey segs) (insertRoute segs cfg t)
     = Some (insertRoute [] cfg
         (case lookupNode (map segmentKey segs) t of
            Some n \<Rightarrow> n
          | None \<Rightarrow> newNode (last segs)))"
proof (induction segs arbitrary: t)
  case Nil
  show ?case by simp
next
  case (Cons seg rest)
  let ?key = "segmentKey seg"
  let ?child = "case map_of (children t) ?key of Some c \<Rightarrow> c | None \<Rightarrow> newNode seg"
  have step: "lookupNode (map segmentKey (seg # rest)) (insertRoute (seg # rest) cfg t)
      = lookupNode (map segmentKey rest) (insertRoute rest cfg ?child)"
    by (simp add: Let_def AList.update_conv')
  show ?case
  proof (cases rest)
    case Nil
    then show ?thesis
      by (simp add: Let_def AList.update_conv' split: option.splits)
  next
    case (Cons r rs)
    then have lst: "last (seg # rest) = last rest" and ne: "map segmentKey rest \<noteq> []"
      by simp_all
    show ?thesis
    proof (cases "map_of (children t) ?key")
      case None
      have "lookupNode (map segmentKey rest) (newNode seg) = None"
        using ne by (rule lookupNode_newNode)
      with None show ?thesis
        unfolding step Cons.IH lst by simp
    next
      case (Some c)
      then show ?thesis
        unfolding step Cons.IH lst by simp
    qed
  qed
qed

lemma wellKeyed_newNode [simp]: "wellKeyed (newNode s)"
  by (simp add: newNode_def)

lemma wellKeyed_children:
  "wellKeyed t \<Longrightarrow> distinct (map fst (children t)) \<and>
     list_all (\<lambda>kc. fst kc = segmentKey (segment (snd kc)) \<and> wellKeyed (snd kc)) (children t)"
  by (cases t) simp

lemma wellKeyed_intro:
  "distinct (map fst cs) \<Longrightarrow>
   list_all (\<lambda>kc. fst kc = segmentKey (segment (snd kc)) \<and> wellKeyed (snd kc)) cs \<Longrightarrow>
   wellKeyed (RouteNode s c cs m)"
  by simp

lemma list_all_update:
  "list_all P al \<Longrightarrow> P (k, v) \<Longrightarrow> list_all P (AList.update k v al)"
  by (induction al) (auto)

lemma wellKeyed_insertRoute:
  "wellKeyed t \<Longrightarrow> wellKeyed (insertRoute segs cfg t)"
proof (induction segs arbitrary: t)
  case Nil
  then show ?case by (cases t) simp
next
  case (Cons seg rest)
  let ?key = "segmentKey seg"
  let ?child = "case map_of (children t) ?key of Some c \<Rightarrow> c | None \<Rightarrow> newNode seg"
  from Cons.prems have d: "distinct (map fst (children t))"
    and a: "list_all (\<lambda>kc. fst kc = segmentKey (segment (snd kc)) \<and> wellKeyed (snd kc)) (children t)"
    using wellKeyed_children by blast+
  have child: "wellKeyed ?child \<and> ?key = segmentKey (segment ?child)"
  proof (cases "map_of (children t) ?key")
    case None
    then show ?thesis by (simp add: newNode_def)
  next
    case (Some c)
    then have "(?key, c) \<in> set (children t)"
      by (rule map_of_SomeD)
    with a show ?thesis
      using Some by (auto simp: list_all_iff)
  qed
  then have "wellKeyed (insertRoute rest cfg ?child)"
    using Cons.IH by blast
  with child have new: "fst (?key, insertRoute rest cfg ?child)
      = segmentKey (segment (snd (?key, insertRoute rest cfg ?child)))
      \<and> wellKeyed (snd (?key, insertRoute rest cfg ?child))"
    by simp
  have "wellKeyed (RouteNode (segment t) (config t)
      (AList.update ?key (insertRoute rest cfg ?child) (children t)) (node_middleware t))"
  proof (rule wellKeyed_intro)
    show "distinct (map fst (AList.update ?key (insertRoute rest cfg ?child) (children t)))"
      using d by (rule AList.distinct_update)
    show "list_all (\<lambda>kc. fst kc = segmentKey (segment (snd kc)) \<and> wellKeyed (snd kc))
        (AList.update ?key (insertRoute rest cfg ?child) (children t))"
      using a new by (rule list_all_update)
  qed
  then show ?case by (simp add: Let_def)
qed

lemma wellKeyed_addRoute: "wellKeyed t \<Longrightarrow> wellKeyed (snd (addRoute cfg t))"
  by (simp add: addRoute_def wellKeyed_insertRoute split: sum.splits)

lemma wellKeyed_registerAll: "wellKeyed t \<Longrightarrow> wellKeyed (registerAll cfgs t)"
  by (induction cfgs arbitrary: t) (simp_all add: wellKeyed_addRoute)

lemma wellKeyed_emptyTree: "wellKeyed emptyTree"
  by (simp add: emptyTree_def)

lemma wellKeyed_nodes: "wellKeyed t \<Longrightarrow> n \<in> set (nodes t) \<Longrightarrow> wellKeyed n"
proof (induction t arbitrary: n)
  case (RouteNode s c cs m)
  show ?case
  proof (cases "n = RouteNode s c cs m")
    case True
    with RouteNode.prems show ?thesis by simp
  next
    case False
    with RouteNode.prems(2) obtain kc where kc: "kc \<in> set cs" "n \<in> set (nodes (snd kc))"
      by auto
    from RouteNode.prems(1) kc(1) have "wellKeyed (snd kc)"
      by (auto simp: list_all_iff)
    moreover have "snd kc \<in> Basic_BNFs.snds kc"
      by (cases kc) simp
    ultimately show ?thesis
      using RouteNode.IH kc by blast
  qed
qed

lemma at_most_one_with_key:
  assumes "distinct (map fst cs)" and "\<And>kc. kc \<in> set cs \<Longrightarrow> P kc \<Longrightarrow> fst kc = k"
  shows "length (filter P cs) \<le> 1"
proof -
  have "distinct (map fst (filter P cs))"
    using assms(1) by (rule distinct_map_filter)
  moreover have "set (map fst (filter P cs)) \<subseteq> {k}"
    using assms(2) by auto
  ultimately have "length (map fst (filter P cs)) \<le> card {k}"
    by (metis card_mono distinct_card finite.emptyI finite.insertI)
  then show ?thesis by simp
qed

lemma wellKeyed_one_per_kind:
  assumes "wellKeyed n"
  shows "length (filter (\<lambda>kc. isDynamic (segment (snd kc))) (children n)) \<le> 1"
    and "length (filter (\<lambda>kc. isOptional (segment (snd kc))) (children n)) \<le> 1"
    and "length (filter (\<lambda>kc. isCatchAll (segment (snd kc))) (children n)) \<le> 1"
proof -
  from assms have d: "distinct (map fst (children n))"
    and a: "\<And>kc. kc \<in> set (children n) \<Longrightarrow> fst kc = segmentKey (segment (snd kc))"
    using wellKeyed_children by (auto simp: list_all_iff)
  show "length (filter (\<lambda>kc. isDynamic (segment (snd kc))) (children n)) \<le> 1"
    using d by (rule at_most_one_with_key [where k = "''dynamic''"])
      (auto simp: isDynamic_def segmentKey_def dest!: a split: RouteSegment.splits)
  show "length (filter (\<lambda>kc. isOptional (segment (snd kc))) (children n)) \<le> 1"
    using d by (rule at_most_one_with_key [where k = "''optional''"])
      (auto simp: isOptional_def segmentKey_def dest!: a split: RouteSegment.splits)
  show "length (filter (\<lambda>kc. isCatchAll (segment (snd kc))) (children n)) \<le> 1"
    using d by (rule at_most_one_with_key [where k = "''catchAll''"])
      (auto simp: isCatchAll_def segmentKey_def dest!: a split: RouteSegment.splits)
qed

lemma lookupNode_addRoute:
  assumes "parseRoute (path cfg) = Inr segs"
  shows "lookupNode (map segmentKey segs) (snd (addRoute cfg t))
     = Some (insertRoute [] cfg
         (case lookupNode (map segmentKey segs) t of
            Some n \<Rightarrow> n
          | None \<Rightarrow> newNode (last segs)))"
  using assms by (simp add: addRoute_def lookupNode_insertRoute)

text \<open>
  Claim C10. In every tree that \<^verbatim>\<open>addRoute\<close> calls build from the empty tree, every node
  has at most one dynamic child, at most one optional child and at most one catch-all
  child; the keys of its children are distinct and each child stands under the key of its
  segment, which for a segment that is not static is its type tag. When two routes are
  registered one after the other whose parsed segments differ at most in the last one,
  and the two last segments have the same key (two dynamic segments, say, with different
  names), both reach the same node: after the second call the node holds the config of
  the second route, its segment is the one it had after the first call, and its
  middleware list is the list after the first call followed by the middleware of the
  second route and of its group. When the node did not exist before the first call, its
  segment is the last segment of the first route, and its middleware list starts with
  the middleware of the first route.
\<close>

theorem addRoute_one_child_per_kind:
  "(n \<in> set (nodes (registerAll cfgs emptyTree)) \<longrightarrow>
      length (filter (\<lambda>kc. isDynamic (segment (snd kc))) (children n)) \<le> 1 \<and>
      length (filter (\<lambda>kc. isOptional (segment (snd kc))) (children n)) \<le> 1 \<and>
      length (filter (\<lambda>kc. isCatchAll (segment (snd kc))) (children n)) \<le> 1 \<and>
      distinct (map fst (children n)) \<and>
      list_all (\<lambda>kc. fst kc = segmentKey (segment (snd kc))) (children n)) \<and>
   (parseRoute (path c1) = Inr (ps @ [s1]) \<and> parseRoute (path c2) = Inr (ps @ [s2])
      \<and> segmentKey s1 = segmentKey s2 \<longrightarrow>
      (\<exists>n1 n2.
         lookupNode (map segmentKey (ps @ [s1]))
           (snd (addRoute c1 (registerAll cfgs emptyTree))) = Some n1 \<and>
         lookupNode (map segmentKey (ps @ [s1]))
           (snd (addRoute c2 (snd (addRoute c1 (registerAll cfgs emptyTree))))) = Some n2 \<and>
         config n1 = Some c1 \<and> config n2 = Some c2 \<and>
         segment n2 = segment n1 \<and>
         node_middleware n2 = node_middleware n1 @ routeMiddleware c2 @ groupMiddleware c2 \<and>
         (lookupNode (map segmentKey (ps @ [s1])) (registerAll cfgs emptyTree) = None \<longrightarrow>
            segment n1 = s1 \<and>
            node_middleware n1 = routeMiddleware c1 @ groupMiddleware c1)))"
proof (intro conjI impI)
  assume "n \<in> set (nodes (registerAll cfgs emptyTree))"
  then have wk: "wellKeyed n"
    using wellKeyed_nodes wellKeyed_registerAll wellKeyed_emptyTree by blast
  then show "length (filter (\<lambda>kc. isDynamic (segment (snd kc))) (children n)) \<le> 1"
    and "length (filter (\<lambda>kc. isOptional (segment (snd kc))) (children n)) \<le> 1"
    and "length (filter (\<lambda>kc. isCatchAll (segment (snd kc))) (children n)) \<le> 1"
    by (rule wellKeyed_one_per_kind)+
  from wk show "distinct (map fst (children n))"
    using wellKeyed_children by blast
  from wk show "list_all (\<lambda>kc. fst kc = segmentKey (segment (snd kc))) (children n)"
    using wellKeyed_children [of n] by (simp add: list_all_iff)
next
  let ?t = "registerAll cfgs emptyTree"
  let ?ks = "map segmentKey (ps @ [s1])"
  let ?n0 = "case lookupNode ?ks ?t of Some n \<Rightarrow> n | None \<Rightarrow> newNode s1"
  assume a: "parseRoute (path c1) = Inr (ps @ [s1]) \<and> parseRoute (path c2) = Inr (ps @ [s2])
      \<and> segmentKey s1 = segmentKey s2"
  then have p1: "parseRoute (path c1) = Inr (ps @ [s1])"
    and p2: "parseRoute (path c2) = Inr (ps @ [s2])"
    and ks: "map segmentKey (ps @ [s2]) = ?ks"
    by simp_all
  have "lookupNode ?ks (snd (addRoute c1 ?t)) = Some (insertRoute [] c1
      (case lookupNode ?ks ?t of Some n \<Rightarrow> n | None \<Rightarrow> newNode (last (ps @ [s1]))))"
    using p1 by (rule lookupNode_addRoute)
  then have l1: "lookupNode ?ks (snd (addRoute c1 ?t)) = Some (insertRoute [] c1 ?n0)"
    by (simp only: last_snoc)
  have "lookupNode (map segmentKey (ps @ [s2])) (snd (addRoute c2 (snd (addRoute c1 ?t))))
      = Some (insertRoute [] c2
          (case lookupNode (map segmentKey (ps @ [s2])) (snd (addRoute c1 ?t)) of
             Some n \<Rightarrow> n | None \<Rightarrow> newNode (last (ps @ [s2]))))"
    using p2 by (rule lookupNode_addRoute)
  then have l2: "lookupNode ?ks (snd (addRoute c2 (snd (addRoute c1 ?t))))
      = Some (insertRoute [] c2 (insertRoute [] c1 ?n0))"
    by (simp only: ks l1 option.case)
  have f: "config (insertRoute [] c1 ?n0) = Some c1"
    "config (insertRoute [] c2 (insertRoute [] c1 ?n0)) = Some c2"
    "segment (insertRoute [] c2 (insertRoute [] c1 ?n0)) = segment (insertRoute [] c1 ?n0)"
    "node_middleware (insertRoute [] c2 (insertRoute [] c1 ?n0))
      = node_middleware (insertRoute [] c1 ?n0) @ routeMiddleware c2 @ groupMiddleware c2"
    "lookupNode ?ks ?t = None \<longrightarrow> segment (insertRoute [] c1 ?n0) = s1 \<and>
      node_middleware (insertRoute [] c1 ?n0) = routeMiddleware c1 @ groupMiddleware c1"
    by (simp_all add: newNode_def)
  show "\<exists>n1 n2.
         lookupNode ?ks (snd (addRoute c1 ?t)) = Some n1 \<and>
         lookupNode ?ks (snd (addRoute c2 (snd (addRoute c1 ?t)))) = Some n2 \<and>
         config n1 = Some c1 \<and> config n2 = Some c2 \<and>
         segment n2 = segment n1 \<and>
         node_middleware n2 = node_middleware n1 @ routeMiddleware c2 @ groupMiddleware c2 \<and>
         (lookupNode ?ks ?t = None \<longrightarrow>
            segment n1 = s1 \<and>
            node_middleware n1 = routeMiddleware c1 @ groupMiddleware c1)"
  proof (intro exI conjI)
    show "lookupNode ?ks (snd (addRoute c1 ?t)) = Some (insertRoute [] c1 ?n0)"
      by (fact l1)
    show "lookupNode ?ks (snd (addRoute c2 (snd (addRoute c1 ?t))))
        = Some (insertRoute [] c2 (insertRoute [] c1 ?n0))"
      by (fact l2)
  qed (fact f)+
qed

theorem addRoute_one_child_per_kind_witness:
  "(\<exists>n2. lookupNode [''posts'', ''dynamic''] (registerAll [postsA, postsB] usersTree) = Some n2 \<and>
      segment n2 = Dynamic ''a'' \<and> config n2 = Some postsB \<and>
      node_middleware n2 = [mw ''first'' [AwaitNext] None, mw ''second'' [AwaitNext] None]) \<and>
   length (filter (\<lambda>kc. isDynamic (segment (snd kc))) (children usersTree)) \<le> 1"
proof -
  have p1: "parseRoute (path postsA) = Inr ([Static ''posts''] @ [Dynamic ''a''])"
    and p2: "parseRoute (path postsB) = Inr ([Static ''posts''] @ [Dynamic ''b''])"
    by code_simp+
  have k: "segmentKey (Dynamic ''a'') = segmentKey (Dynamic ''b'')"
    by (simp add: segmentKey_def)
  have ks: "map segmentKey ([Static ''posts''] @ [Dynamic ''a'']) = [''posts'', ''dynamic'']"
    by (simp add: segmentKey_def)
  have new: "lookupNode [''posts'', ''dynamic''] (registerAll [plainRoute ''/users/[id]''] emptyTree) = None"
    by code_simp
  have root: "usersTree \<in> set (nodes (registerAll [plainRoute ''/users/[id]''] emptyTree))"
    unfolding usersTree_def by (cases "registerAll [plainRoute ''/users/[id]''] emptyTree") simp
  have m1: "routeMiddleware postsA @ groupMiddleware postsA = [mw ''first'' [AwaitNext] None]"
    and m2: "routeMiddleware postsB @ groupMiddleware postsB = [mw ''second'' [AwaitNext] None]"
    by (simp_all add: postsA_def postsB_def withMiddleware_def routeMiddleware_def groupMiddleware_def)
  note inst = addRoute_one_child_per_kind [where n = usersTree
      and cfgs = "[plainRoute ''/users/[id]'']" and ?c1.0 = postsA and ?c2.0 = postsB
      and ps = "[Static ''posts'']" and ?s1.0 = "Dynamic ''a''" and ?s2.0 = "Dynamic ''b''"]
  from inst [THEN conjunct1] root have one: "length (filter (\<lambda>kc. isDynamic (segment (snd kc))) (children usersTree)) \<le> 1"
    by blast
  have ex: "\<exists>n1 n2.
      lookupNode (map segmentKey ([Static ''posts''] @ [Dynamic ''a'']))
        (snd (addRoute postsA (registerAll [plainRoute ''/users/[id]''] emptyTree))) = Some n1 \<and>
      lookupNode (map segmentKey ([Static ''posts''] @ [Dynamic ''a'']))
        (snd (addRoute postsB (snd (addRoute postsA
          (registerAll [plainRoute ''/users/[id]''] emptyTree))))) = Some n2 \<and>
      config n1 = Some postsA \<and> config n2 = Some postsB \<and>
      segment n2 = segment n1 \<and>
      node_middleware n2 = node_middleware n1 @ routeMiddleware postsB @ groupMiddleware postsB \<and>
      (lookupNode (map segmentKey ([Static ''posts''] @ [Dynamic ''a'']))
         (registerAll [plainRoute ''/users/[id]''] emptyTree) = None \<longrightarrow>
       segment n1 = Dynamic ''a'' \<and>
       node_middleware n1 = routeMiddleware postsA @ groupMiddleware postsA)"
    by (rule inst [THEN conjunct2, THEN mp, OF conjI [OF p1 conjI [OF p2 k]]])
  then obtain n1 n2 where
    n: "lookupNode (map segmentKey ([Static ''posts''] @ [Dynamic ''a'']))
           (snd (addRoute postsB (snd (addRoute postsA (registerAll [plainRoute ''/users/[id]''] emptyTree))))) = Some n2"
      "config n2 = Some postsB" "segment n2 = segment n1"
      "node_middleware n2 = node_middleware n1 @ routeMiddleware postsB @ groupMiddleware postsB"
      "lookupNode (map segmentKey ([Static ''posts''] @ [Dynamic ''a''])) (registerAll [plainRoute ''/users/[id]''] emptyTree) = None \<longrightarrow>
            segment n1 = Dynamic ''a'' \<and>
            node_middleware n1 = routeMiddleware postsA @ groupMiddleware postsA"
    by (elim exE conjE)
  from n(5) new have "segment n1 = Dynamic ''a''"
    and "node_middleware n1 = routeMiddleware postsA @ groupMiddleware postsA"
    unfolding ks by simp_all
  with n have "lookupNode [''posts'', ''dynamic''] (registerAll [postsA, postsB] usersTree) = Some n2 \<and>
      segment n2 = Dynamic ''a'' \<and> config n2 = Some postsB \<and>
      node_middleware n2 = [mw ''first'' [AwaitNext] None, mw ''second'' [AwaitNext] None]"
    unfolding ks usersTree_def by (simp add: m1 m2)
  with one show ?thesis by blast
qed

section \<open>The matcher\<close>

text \<open>
  A match that consumes the segments \<open>segs\<close> from the score \<open>sc\<close> scores at most
  \<open>sc + 100 * length segs\<close>, and reaches this bound only through static children.
\<close>

lemma score_bound:
  "m \<in> set (matchSegments segs node ps sc) \<Longrightarrow> score m \<le> sc + 100 * int (length segs)"
proof (induction segs arbitrary: node ps sc)
  case Nil
  then show ?case by (auto split: option.splits)
next
  case (Cons seg rest)
  from Cons.prems consider
    (static) kc where "kc \<in> set (children node)"
      "m \<in> set (matchSegments rest (snd kc) ps (sc + 100))"
  | (dynamic) kc n where "kc \<in> set (children node)"
      "m \<in> set (matchSegments rest (snd kc) (AList.update n seg ps) (sc + 50))"
  | (catchAll) kc n where "kc \<in> set (children node)"
      "m \<in> set (matchSegments [] (snd kc) (AList.update n (join ''/'' (seg # rest)) ps) (sc + 10))"
    by (auto split: RouteSegment.splits if_splits)
  then show ?case
  proof cases
    case static
    from Cons.IH [OF static(2)] show ?thesis by simp
  next
    case dynamic
    from Cons.IH [OF dynamic(2)] show ?thesis by simp
  next
    case catchAll
    then show ?thesis by (auto split: option.splits)
  qed
qed

lemma dynamic_part_bound:
  assumes "m \<in> set (concat (map (\<lambda>kc.
        case segment (snd kc) of
          Dynamic n \<Rightarrow>
            matchSegments rest (snd kc) (AList.update n seg ps) (sc + 50)
        | _ \<Rightarrow> []) cs))"
  shows "score m \<le> sc + 50 + 100 * int (length rest)"
proof -
  from assms obtain kc n where
    "m \<in> set (matchSegments rest (snd kc) (AList.update n seg ps) (sc + 50))"
    by (auto split: RouteSegment.splits)
  then show ?thesis by (rule score_bound)
qed

lemma catchAll_part_bound:
  assumes "m \<in> set (concat (map (\<lambda>kc.
        case segment (snd kc) of
          CatchAll n \<Rightarrow>
            matchSegments [] (snd kc) (AList.update n v ps) (sc + 10)
        | _ \<Rightarrow> []) cs))"
  shows "score m \<le> sc + 10"
proof -
  from assms obtain kc n where
    "m \<in> set (matchSegments [] (snd kc) (AList.update n v ps) (sc + 10))"
    by (auto split: RouteSegment.splits simp del: matchSegments.simps)
  then have "score m \<le> sc + 10 + 100 * int (length ([] :: string list))"
    by (rule score_bound)
  then show ?thesis by simp
qed

lemma below_static_score:
  assumes "m \<in> set (matchSegments (seg # rest) node ps sc)"
    and "sc + 100 * int (length (seg # rest)) \<le> score m"
  shows "m \<in> set (concat (map (\<lambda>kc.
        case segment (snd kc) of
          Static v \<Rightarrow>
            if v = seg then matchSegments rest (snd kc) ps (sc + 100) else []
        | _ \<Rightarrow> []) (children node)))"
proof -
  let ?S = "concat (map (\<lambda>kc.
        case segment (snd kc) of
          Static v \<Rightarrow>
            if v = seg then matchSegments rest (snd kc) ps (sc + 100) else []
        | _ \<Rightarrow> []) (children node))"
  let ?D = "concat (map (\<lambda>kc.
        case segment (snd kc) of
          Dynamic n \<Rightarrow>
            matchSegments rest (snd kc) (AList.update n seg ps) (sc + 50)
        | _ \<Rightarrow> []) (children node))"
  let ?C = "concat (map (\<lambda>kc.
        case segment (snd kc) of
          CatchAll n \<Rightarrow>
            matchSegments [] (snd kc)
              (AList.update n (join ''/'' (seg # rest)) ps) (sc + 10)
        | _ \<Rightarrow> []) (children node))"
  have "matchSegments (seg # rest) node ps sc = ?S @ ?D @ ?C"
    by (simp only: matchSegments.simps)
  with assms(1) have "m \<in> set ?S \<or> m \<in> set ?D \<or> m \<in> set ?C"
    by (simp only: set_append Un_iff)
  moreover have "m \<notin> set ?D"
    using dynamic_part_bound [of m rest seg ps sc "children node"] assms(2) by auto
  moreover have "m \<notin> set ?C"
    using catchAll_part_bound [of m "join ''/'' (seg # rest)" ps sc "children node"] assms(2)
    by auto
  ultimately show ?thesis by blast
qed

lemma static_part_none:
  "\<forall>kc \<in> set cs. segment (snd kc) \<noteq> Static v \<Longrightarrow>
   concat (map (\<lambda>kc.
        case segment (snd kc) of
          Static w \<Rightarrow> if w = v then g (snd kc) else []
        | _ \<Rightarrow> []) cs) = []"
  by (induction cs) (auto split: RouteSegment.splits)

lemma static_part_single:
  assumes "distinct (map fst cs)"
    and "\<forall>kc \<in> set cs. fst kc = segmentKey (segment (snd kc))"
    and "(v, X) \<in> set cs" and "segment X = Static v"
  shows "concat (map (\<lambda>kc.
        case segment (snd kc) of
          Static w \<Rightarrow> if w = v then g (snd kc) else []
        | _ \<Rightarrow> []) cs) = g X"
  using assms
proof (induction cs)
  case Nil
  then show ?case by simp
next
  case (Cons kc cs)
  have key: "\<And>kc'. kc' \<in> set (kc # cs) \<Longrightarrow> segment (snd kc') = Static v \<Longrightarrow> fst kc' = v"
    using Cons.prems(2) by (auto simp: segmentKey_def)
  show ?case
  proof (cases "kc = (v, X)")
    case True
    have "\<forall>kc' \<in> set cs. segment (snd kc') \<noteq> Static v"
    proof
      fix kc' assume in_cs: "kc' \<in> set cs"
      show "segment (snd kc') \<noteq> Static v"
      proof
        assume "segment (snd kc') = Static v"
        with in_cs key have "fst kc' = v" by simp
        with in_cs have "v \<in> set (map fst cs)" by force
        with Cons.prems(1) True show False by simp
      qed
    qed
    then have "concat (map (\<lambda>kc.
        case segment (snd kc) of
          Static w \<Rightarrow> if w = v then g (snd kc) else []
        | _ \<Rightarrow> []) cs) = []"
      by (rule static_part_none)
    with True Cons.prems(4) show ?thesis by simp
  next
    case False
    with Cons.prems(3) have in_cs: "(v, X) \<in> set cs" by simp
    then have "v \<in> set (map fst cs)" by force
    with Cons.prems(1) have "fst kc \<noteq> v" by auto
    with key [of kc] have "segment (snd kc) \<noteq> Static v" by auto
    moreover have "concat (map (\<lambda>kc.
        case segment (snd kc) of
          Static w \<Rightarrow> if w = v then g (snd kc) else []
        | _ \<Rightarrow> []) cs) = g X"
      using Cons.IH Cons.prems in_cs by simp
    ultimately show ?thesis by (auto split: RouteSegment.splits)
  qed
qed

lemma static_key_segment:
  "v \<notin> typeTags \<Longrightarrow> segmentKey s = v \<Longrightarrow> s = Static v"
  by (cases s) (auto simp: segmentKey_def typeTags_def)

lemma static_path_unique_best:
  assumes "wellKeyed node" and "\<forall>v \<in> set vs. v \<notin> typeTags"
    and "lookupNode vs node = Some n" and "config n = Some cfg"
  shows "filter (\<lambda>m. sc + 100 * int (length vs) \<le> score m) (matchSegments vs node ps sc)
         = [\<lparr>route = cfg, params = ps, score = sc + 100 * int (length vs)\<rparr>]"
  using assms
proof (induction vs arbitrary: node sc)
  case Nil
  then show ?case by simp
next
  case (Cons v rest)
  let ?cs = "children node"
  let ?P = "\<lambda>m. sc + 100 * int (length (v # rest)) \<le> score m"
  from Cons.prems(3) obtain c where c: "map_of ?cs v = Some c" "lookupNode rest c = Some n"
    by (auto split: option.splits)
  then have inX: "(v, c) \<in> set ?cs"
    using map_of_SomeD by fastforce
  from Cons.prems(1) have d: "distinct (map fst ?cs)"
    and k: "\<forall>kc \<in> set ?cs. fst kc = segmentKey (segment (snd kc))"
    and wk: "\<forall>kc \<in> set ?cs. wellKeyed (snd kc)"
    using wellKeyed_children [of node] by (simp_all add: list_all_iff)
  from Cons.prems(2) have vt: "v \<notin> typeTags" by simp
  from k inX have "segmentKey (segment c) = v" by force
  with vt have segX: "segment c = Static v"
    by (rule static_key_segment)
  from wk inX have wkc: "wellKeyed c" by force
  let ?S = "concat (map (\<lambda>kc.
        case segment (snd kc) of
          Static w \<Rightarrow>
            if w = v then matchSegments rest (snd kc) ps (sc + 100) else []
        | _ \<Rightarrow> []) ?cs)"
  let ?D = "concat (map (\<lambda>kc.
        case segment (snd kc) of
          Dynamic n \<Rightarrow>
            matchSegments rest (snd kc) (AList.update n v ps) (sc + 50)
        | _ \<Rightarrow> []) ?cs)"
  let ?C = "concat (map (\<lambda>kc.
        case segment (snd kc) of
          CatchAll n \<Rightarrow>
            matchSegments [] (snd kc)
              (AList.update n (join ''/'' (v # rest)) ps) (sc + 10)
        | _ \<Rightarrow> []) ?cs)"
  have split3: "matchSegments (v # rest) node ps sc = ?S @ ?D @ ?C"
    by (simp only: matchSegments.simps)
  have S: "?S = matchSegments rest c ps (sc + 100)"
    using d k inX segX by (rule static_part_single)
  have D: "filter ?P ?D = []"
  proof -
    have "\<And>m. m \<in> set ?D \<Longrightarrow> \<not> ?P m"
      using dynamic_part_bound [of _ rest v ps sc ?cs] by fastforce
    then show ?thesis by (simp add: filter_empty_conv)
  qed
  have C: "filter ?P ?C = []"
  proof -
    have "\<And>m. m \<in> set ?C \<Longrightarrow> \<not> ?P m"
      using catchAll_part_bound [of _ "join ''/'' (v # rest)" ps sc ?cs] by fastforce
    then show ?thesis by (simp add: filter_empty_conv)
  qed
  have "filter (\<lambda>m. (sc + 100) + 100 * int (length rest) \<le> score m)
           (matchSegments rest c ps (sc + 100))
         = [\<lparr>route = cfg, params = ps, score = (sc + 100) + 100 * int (length rest)\<rparr>]"
    using wkc Cons.prems(2,4) c(2) by (intro Cons.IH) simp_all
  moreover have "?P = (\<lambda>m. (sc + 100) + 100 * int (length rest) \<le> score m)"
    by (rule ext) (simp add: algebra_simps)
  ultimately have "filter ?P ?S
      = [\<lparr>route = cfg, params = ps, score = sc + 100 * int (length (v # rest))\<rparr>]"
    unfolding S by (simp add: algebra_simps)
  with D C show ?case
    unfolding split3 by (simp only: filter_append append_Nil2)
qed

lemma sort_key_unique_max:
  assumes "filter (\<lambda>m. S \<le> score m) ms = [m0]"
  shows "\<exists>rest. sort_key (\<lambda>m. - score m) ms = m0 # rest"
proof -
  let ?xs = "sort_key (\<lambda>m. - score m) ms"
  have "m0 \<in> set (filter (\<lambda>m. S \<le> score m) ms)"
    using assms by simp
  then have m0: "m0 \<in> set ms" "S \<le> score m0"
    by simp_all
  then have "m0 \<in> set ?xs" by simp
  then obtain h t where xs: "?xs = h # t"
    by (cases ?xs) auto
  have "sorted (map (\<lambda>m. - score m) ?xs)"
    by (rule sorted_sort_key)
  with xs \<open>m0 \<in> set ?xs\<close> have "- score h \<le> - score m0"
    by auto
  with m0(2) have "S \<le> score h" by simp
  moreover have "h \<in> set ms"
    using xs by (metis list.set_intros(1) set_sort)
  ultimately have "h \<in> set (filter (\<lambda>m. S \<le> score m) ms)"
    by simp
  with assms have "h = m0" by simp
  with xs show ?thesis by simp
qed

text \<open>
  In a tree with the invariant, take a request path none of whose components is one of
  the type tags. If the node under the components of the path holds a config, then
  \<^verbatim>\<open>matchRoute\<close> returns this config with no parameter bound and the score 100 for each
  component, and every other candidate match has a lower score. Registering a route
  whose components do not start with a bracket puts its config at that node.
\<close>

lemma static_route_preferred:
  assumes "wellKeyed tree"
    and "\<forall>s \<in> set (pathSegments p). s \<notin> typeTags"
    and "lookupNode (pathSegments p) tree = Some n" and "config n = Some cfg"
  shows "matchRoute p tree
      = Some \<lparr>route = cfg, params = [], score = 100 * int (length (pathSegments p))\<rparr> \<and>
    (\<forall>m \<in> set (matchSegments (pathSegments p) tree [] 0).
      m = \<lparr>route = cfg, params = [], score = 100 * int (length (pathSegments p))\<rparr>
      \<or> score m < 100 * int (length (pathSegments p)))"
proof
  let ?vs = "pathSegments p"
  let ?m0 = "\<lparr>route = cfg, params = [], score = 100 * int (length ?vs)\<rparr>"
  have "filter (\<lambda>m. 0 + 100 * int (length ?vs) \<le> score m) (matchSegments ?vs tree [] 0)
         = [\<lparr>route = cfg, params = [], score = 0 + 100 * int (length ?vs)\<rparr>]"
    using assms by (rule static_path_unique_best)
  then have best: "filter (\<lambda>m. 100 * int (length ?vs) \<le> score m)
           (matchSegments ?vs tree [] 0) = [?m0]"
    by simp
  then obtain rest where
    "sort_key (\<lambda>m. - score m) (matchSegments ?vs tree [] 0) = ?m0 # rest"
    using sort_key_unique_max by blast
  then show "matchRoute p tree = Some ?m0"
    by (simp add: matchRoute_def Let_def)
  show "\<forall>m \<in> set (matchSegments ?vs tree [] 0).
      m = ?m0 \<or> score m < 100 * int (length ?vs)"
  proof
    fix m assume m: "m \<in> set (matchSegments ?vs tree [] 0)"
    show "m = ?m0 \<or> score m < 100 * int (length ?vs)"
    proof (cases "100 * int (length ?vs) \<le> score m")
      case True
      with m have "m \<in> set (filter (\<lambda>m. 100 * int (length ?vs) \<le> score m)
           (matchSegments ?vs tree [] 0))"
        by simp
      with best show ?thesis by simp
    next
      case False
      then show ?thesis by simp
    qed
  qed
qed

lemma static_route_registered:
  assumes "\<forall>s \<in> set (pathSegments (path cfg)). hd s \<noteq> CHR ''[''"
  shows "\<exists>n. lookupNode (pathSegments (path cfg)) (snd (addRoute cfg tree)) = Some n
      \<and> config n = Some cfg"
proof -
  let ?vs = "pathSegments (path cfg)"
  have "parseSegments ?vs = Inr (map Static ?vs)"
    using assms pathSegments_nonempty by (intro parseSegments_static) blast
  then have "parseRoute (path cfg) = Inr (map Static ?vs)"
    by (simp add: parseRoute_def)
  then have "lookupNode (map segmentKey (map Static ?vs)) (snd (addRoute cfg tree))
     = Some (insertRoute [] cfg
         (case lookupNode (map segmentKey (map Static ?vs)) tree of
            Some n \<Rightarrow> n
          | None \<Rightarrow> newNode (last (map Static ?vs))))"
    by (rule lookupNode_addRoute)
  moreover have "map segmentKey (map Static ?vs) = ?vs"
    by (simp add: segmentKey_def comp_def)
  ultimately show ?thesis by simp
qed

text \<open>
  The example of the claim itself: \<^verbatim>\<open>/users/me\<close> is matched by the static route with the
  score 200, ahead of the dynamic candidate with the score 150.
\<close>

lemma static_route_preferred_example:
  "matchRoute ''/users/me''
     (registerAll [plainRoute ''/users/[id]'', plainRoute ''/users/me''] emptyTree)
   = Some \<lparr>route = plainRoute ''/users/me'', params = [], score = 200\<rparr> \<and>
   matchSegments [''users'', ''me'']
     (registerAll [plainRoute ''/users/[id]'', plainRoute ''/users/me''] emptyTree) [] 0
   = [\<lparr>route = plainRoute ''/users/me'', params = [], score = 200\<rparr>,
      \<lparr>route = plainRoute ''/users/[id]'', params = [(''id'', ''me'')], score = 150\<rparr>]"
  by code_simp

text \<open>
  Claim C4 does not hold of the code for a static segment whose text is the type tag of
  another kind of segment. The static segment \<^verbatim>\<open>dynamic\<close> has the key of a dynamic child:
  registered after \<^verbatim>\<open>/users/[id]\<close>, the route \<^verbatim>\<open>/users/dynamic\<close> is attached to the dynamic
  node, and its own path is matched through the dynamic loop, with the score 150 and the
  parameter \<^verbatim>\<open>id\<close> bound to \<^verbatim>\<open>dynamic\<close>.
\<close>

theorem static_route_key_collision:
  "matchRoute ''/users/dynamic''
     (registerAll [plainRoute ''/users/[id]'', plainRoute ''/users/dynamic''] emptyTree)
   = Some \<lparr>route = plainRoute ''/users/dynamic'', params = [(''id'', ''dynamic'')], score = 150\<rparr>"
  by code_simp

text \<open>
  A pattern of static and dynamic segments does round-trip, and a path that no route
  covers has no match.
\<close>

lemma dynamic_round_trip_example:
  "matchRoute ''/a/42/b'' (registerAll [plainRoute ''/a/[name]/b''] emptyTree)
     = Some \<lparr>route = plainRoute ''/a/[name]/b'', params = [(''name'', ''42'')], score = 250\<rparr> \<and>
   matchRoute ''/a/42'' (registerAll [plainRoute ''/a/[name]/b''] emptyTree) = None \<and>
   matchRoute ''/c'' (registerAll [plainRoute ''/a/[name]/b''] emptyTree) = None"
  by code_simp

text \<open>
  Claim C8 does not hold of the code for optional segments. \<^verbatim>\<open>[[lang]]\<close> is parsed as a
  catch-all (the catch-all pattern is tried before the optional one and matches it), so
  the path without the component has no match. The only spelling that parses as an
  optional segment is \<^verbatim>\<open>[lang]]\<close>, and \<^verbatim>\<open>matchSegments\<close> has no loop for optional children:
  the route matches neither with the component nor without it.
\<close>

theorem optional_segment_never_matched:
  "parseRoute ''/docs/[[lang]]'' = Inr [Static ''docs'', CatchAll ''lang''] \<and>
   matchRoute ''/docs'' (registerAll [plainRoute ''/docs/[[lang]]''] emptyTree) = None \<and>
   parseRoute ''/docs/[lang]]'' = Inr [Static ''docs'', Optional ''lang''] \<and>
   matchRoute ''/docs/en'' (registerAll [plainRoute ''/docs/[lang]]''] emptyTree) = None \<and>
   matchRoute ''/docs'' (registerAll [plainRoute ''/docs/[lang]]''] emptyTree) = None"
  by code_simp

section \<open>The middleware chain\<close>

lemma runSteps_past_end_state:
  "length ms \<le> i \<Longrightarrow> snd (runSteps ms ss (i, tr)) = (i, tr)"
proof (induction ss)
  case Nil
  then show ?case by simp
next
  case (Cons s ss)
  then show ?case by (cases s) simp_all
qed

lemma runSteps_past_end:
  "length ms \<le> i \<Longrightarrow> noThrow ss \<Longrightarrow> runSteps ms ss (i, tr) = (None, i, tr)"
proof (induction ss)
  case Nil
  then show ?case by simp
next
  case (Cons s ss)
  then show ?case by (cases s) (simp_all add: noThrow_def)
qed

lemma executeChain_single:
  "snd (executeChain [m] tr) = tr @ [name m]"
  "noThrow (handler m) \<Longrightarrow> executeChain [m] tr = (None, tr @ [name m])"
proof -
  have "snd (runSteps [m] (handler m) (Suc 0, tr @ [name m])) = (Suc 0, tr @ [name m])"
    by (rule runSteps_past_end_state) simp
  then show "snd (executeChain [m] tr) = tr @ [name m]"
    by (auto simp: executeChain_def split: prod.splits option.splits)
next
  assume "noThrow (handler m)"
  then have "runSteps [m] (handler m) (Suc 0, tr @ [name m]) = (None, Suc 0, tr @ [name m])"
    by (intro runSteps_past_end) simp_all
  then show "executeChain [m] tr = (None, tr @ [name m])"
    by (simp add: executeChain_def)
qed

text \<open>
  Claim C2, as the code has it, for a chain \<^verbatim>\<open>A\<close>, \<^verbatim>\<open>B\<close> (phase not \<^verbatim>\<open>after\<close>) and \<^verbatim>\<open>C\<close>
  (phase \<^verbatim>\<open>after\<close>). If \<^verbatim>\<open>A\<close> returns without invoking \<^verbatim>\<open>next\<close>, then \<^verbatim>\<open>B\<close> does not run,
  but \<^verbatim>\<open>C\<close> does: the handlers started are \<^verbatim>\<open>A\<close>, \<^verbatim>\<open>C\<close>, and \<^verbatim>\<open>execute\<close> completes without
  error when \<^verbatim>\<open>C\<close> does not throw. If \<^verbatim>\<open>A\<close> awaits \<^verbatim>\<open>next\<close> and no handler throws, the
  handlers started are \<^verbatim>\<open>A\<close>, \<^verbatim>\<open>B\<close>, \<^verbatim>\<open>C\<close>, in this order, and \<^verbatim>\<open>execute\<close> completes
  without error.
\<close>

theorem halting_before_phase_does_not_stop_after_phase:
  "phase A \<noteq> Some After \<and> phase B \<noteq> Some After \<and> phase C = Some After \<longrightarrow>
     (handler A = [] \<longrightarrow> snd (execute [A, B, C]) = [name A, name C]) \<and>
     (handler A = [] \<and> noThrow (handler C) \<longrightarrow> fst (execute [A, B, C]) = None) \<and>
     (handler A = AwaitNext # rest \<and> noThrow rest \<and> noThrow (handler B) \<and> noThrow (handler C)
        \<longrightarrow> execute [A, B, C] = (None, [name A, name B, name C]))"
proof (intro impI conjI)
  assume ph: "phase A \<noteq> Some After \<and> phase B \<noteq> Some After \<and> phase C = Some After"
  then have parts: "filter (\<lambda>m. phase m \<noteq> Some After) [A, B, C] = [A, B]"
    "filter (\<lambda>m. phase m = Some After) [A, B, C] = [C]"
    by simp_all
  {
    assume "handler A = []"
    then have "executeChain [A, B] [] = (None, [name A])"
      by (simp add: executeChain_def)
    then have ex: "execute [A, B, C] = executeChain [C] [name A]"
      unfolding execute_def Let_def parts by simp
    show "snd (execute [A, B, C]) = [name A, name C]"
      by (simp add: ex executeChain_single(1))
  }
  {
    assume "handler A = [] \<and> noThrow (handler C)"
    then have "executeChain [A, B] [] = (None, [name A])" and c: "noThrow (handler C)"
      by (simp_all add: executeChain_def)
    then have ex: "execute [A, B, C] = executeChain [C] [name A]"
      unfolding execute_def Let_def parts by simp
    show "fst (execute [A, B, C]) = None"
      by (simp add: ex executeChain_single(2) c)
  }
  {
    assume a: "handler A = AwaitNext # rest \<and> noThrow rest \<and> noThrow (handler B) \<and> noThrow (handler C)"
    have b: "runSteps [A, B] (handler B) (2, [name A, name B]) = (None, 2, [name A, name B])"
      using a by (intro runSteps_past_end) simp_all
    have r: "runSteps [A, B] rest (2, [name A, name B]) = (None, 2, [name A, name B])"
      using a by (intro runSteps_past_end) simp_all
    have "runSteps [A, B] (handler A) (Suc 0, [name A]) = (None, 2, [name A, name B])"
      using a b r by (simp add: numeral_2_eq_2)
    then have "executeChain [A, B] [] = (None, [name A, name B])"
      by (simp add: executeChain_def)
    then have ex: "execute [A, B, C] = executeChain [C] [name A, name B]"
      unfolding execute_def Let_def parts by simp
    show "execute [A, B, C] = (None, [name A, name B, name C])"
      using a by (simp add: ex executeChain_single(2))
  }
qed

text \<open>
  The claim as stated fails: with \<^verbatim>\<open>A\<close> returning at once, \<^verbatim>\<open>C\<close> still runs.
\<close>

theorem after_phase_runs_after_halt_counterexample:
  "execute [mw ''A'' [] (Some Before), mw ''B'' [AwaitNext] (Some Before),
            mw ''C'' [AwaitNext] (Some After)] = (None, [''A'', ''C''])"
  by code_simp

theorem halting_before_phase_does_not_stop_after_phase_witness:
  "execute [mw ''A'' [] None, mw ''B'' [AwaitNext] (Some Before), mw ''C'' [AwaitNext] (Some After)]
     = (None, [''A'', ''C'']) \<and>
   execute [mw ''A'' [AwaitNext] None, mw ''B'' [AwaitNext] (Some Before), mw ''C'' [AwaitNext] (Some After)]
     = (None, [''A'', ''B'', ''C''])"
proof -
  have 1: "snd (execute [mw ''A'' [] None, mw ''B'' [AwaitNext] (Some Before), mw ''C'' [AwaitNext] (Some After)]) = [''A'', ''C'']"
    and 2: "fst (execute [mw ''A'' [] None, mw ''B'' [AwaitNext] (Some Before), mw ''C'' [AwaitNext] (Some After)]) = None"
    using halting_before_phase_does_not_stop_after_phase
      [of "mw ''A'' [] None" "mw ''B'' [AwaitNext] (Some Before)" "mw ''C'' [AwaitNext] (Some After)" "[]"]
    by (simp_all add: mw_def noThrow_def)
  have 3: "execute [mw ''A'' [AwaitNext] None, mw ''B'' [AwaitNext] (Some Before), mw ''C'' [AwaitNext] (Some After)]
     = (None, [''A'', ''B'', ''C''])"
    using halting_before_phase_does_not_stop_after_phase
      [of "mw ''A'' [AwaitNext] None" "mw ''B'' [AwaitNext] (Some Before)" "mw ''C'' [AwaitNext] (Some After)" "[]"]
    by (simp add: mw_def noThrow_def)
  from 1 2 3 show ?thesis
    by (simp add: prod_eq_iff)
qed

text \<open>
  When the first handler of a chain throws, the error names it and carries the message
  thrown.
\<close>

lemma first_handler_failure_named:
  "handler m = Throw msg # rest \<Longrightarrow>
   executeChain (m # ms) tr = (Some (middlewareFailed (name m) (plainError msg)), tr @ [name m])"
  by (simp add: executeChain_def)

text \<open>
  Claim C3 does not hold of the code at a position after the first. When \<^verbatim>\<open>B\<close>, reached
  through the \<^verbatim>\<open>next\<close> of \<^verbatim>\<open>A\<close>, throws \<^verbatim>\<open>boom\<close>, the error of \<^verbatim>\<open>B\<close> rejects the
  \<^verbatim>\<open>await next()\<close> of \<^verbatim>\<open>A\<close> and is wrapped once more on the way out: \<^verbatim>\<open>execute\<close> rejects
  with an error whose message names \<^verbatim>\<open>A\<close> and whose details are the message about \<^verbatim>\<open>B\<close>;
  the text \<^verbatim>\<open>boom\<close> is gone.
\<close>

theorem nested_failure_names_outer_middleware:
  "execute [mw ''A'' [AwaitNext] None, mw ''B'' [Throw ''boom''] None]
     = (Some (middlewareFailed ''A'' (middlewareFailed ''B'' (plainError ''boom''))), [''A'', ''B'']) \<and>
   message (middlewareFailed ''A'' (middlewareFailed ''B'' (plainError ''boom'')))
     = ''Middleware '' @ [CHR 0x27] @ ''A'' @ [CHR 0x27] @ '' failed'' \<and>
   details (middlewareFailed ''A'' (middlewareFailed ''B'' (plainError ''boom'')))
     = Some (''Middleware '' @ [CHR 0x27] @ ''B'' @ [CHR 0x27] @ '' failed'')"
  by code_simp

text \<open>
  On the chain of a router every user middleware stands behind the three built-in ones,
  which all await \<^verbatim>\<open>next\<close>: whatever a user middleware throws, \<^verbatim>\<open>execute\<close> rejects with
  an error that names the error boundary and whose details name the timing middleware.
\<close>

lemma router_chain_failure_names_error_boundary:
  "execute (chain_add (mw ''auth'' [Throw ''denied''] None) routerChain)
     = (Some (middlewareFailed ''errorBoundary'' (middlewareFailed ''timing''
          (middlewareFailed ''logger'' (middlewareFailed ''auth'' (plainError ''denied''))))),
        [''errorBoundary'', ''timing'', ''logger'', ''auth''])"
  by code_simp

section \<open>The cache: reads\<close>

lemma map_of_delete_same: "map_of (AList.delete k al) k = None"
  by (simp add: AList.delete_conv')

text \<open>
  \<^verbatim>\<open>get\<close> returns \<^verbatim>\<open>undefined\<close> for a key the map does not hold. For an entry with a
  finite time-to-live other than 0: past the time-to-live the entry is removed from the
  map and \<^verbatim>\<open>undefined\<close> is returned; not past it but past three quarters of it, the entry is
  returned with its stale flag set, the flag is stored and the key is in the
  revalidation queue; up to three quarters of it the entry is returned as it is stored
  and the cache is unchanged.
\<close>

lemma cache_get_nonzero_ttl:
  "(map_of (cache c) key = None \<longrightarrow> cache_get now key c = (None, c)) \<and>
   (map_of (cache c) key = Some e \<and> ttl e = Fin t \<and> t \<noteq> 0 \<and> now - timestamp e > t \<longrightarrow>
      cache_get now key c = (None, cache_delete key c) \<and>
      map_of (cache (cache_delete key c)) key = None) \<and>
   (map_of (cache c) key = Some e \<and> ttl e = Fin t \<and> t \<noteq> 0 \<and> \<not> now - timestamp e > t
      \<and> real_of_int (now - timestamp e) > 0.75 * real_of_int t \<longrightarrow>
      fst (cache_get now key c) = Some (e\<lparr>isStale := True\<rparr>) \<and>
      map_of (cache (snd (cache_get now key c))) key = Some (e\<lparr>isStale := True\<rparr>) \<and>
      key \<in> set (revalidationQueue (snd (cache_get now key c)))) \<and>
   (map_of (cache c) key = Some e \<and> ttl e = Fin t \<and> t \<noteq> 0 \<and> now - timestamp e \<le> t
      \<and> real_of_int (now - timestamp e) \<le> 0.75 * real_of_int t \<longrightarrow>
      cache_get now key c = (Some e, c))"
proof (intro conjI impI)
  show "map_of (cache c) key = None \<Longrightarrow> cache_get now key c = (None, c)"
    by (simp add: cache_get_def)
next
  assume "map_of (cache c) key = Some e \<and> ttl e = Fin t \<and> t \<noteq> 0 \<and> now - timestamp e > t"
  then show "cache_get now key c = (None, cache_delete key c)"
    by (simp add: cache_get_def isExpired_def)
next
  show "map_of (cache (cache_delete key c)) key = None"
    by (simp add: cache_delete_def map_of_delete_same)
next
  assume a: "map_of (cache c) key = Some e \<and> ttl e = Fin t \<and> t \<noteq> 0 \<and> \<not> now - timestamp e > t
      \<and> real_of_int (now - timestamp e) > 0.75 * real_of_int t"
  then have g: "cache_get now key c = (Some (e\<lparr>isStale := True\<rparr>),
      queueRevalidation key (cache_set key (e\<lparr>isStale := True\<rparr>) c))"
    by (simp add: cache_get_def isExpired_def isStale_entry_def mult.commute)
  show "fst (cache_get now key c) = Some (e\<lparr>isStale := True\<rparr>)"
    by (simp add: g)
  show "map_of (cache (snd (cache_get now key c))) key = Some (e\<lparr>isStale := True\<rparr>)"
    by (simp add: g queueRevalidation_def cache_set_def AList.update_conv')
  show "key \<in> set (revalidationQueue (snd (cache_get now key c)))"
    by (simp add: g queueRevalidation_def cache_set_def)
next
  assume a: "map_of (cache c) key = Some e \<and> ttl e = Fin t \<and> t \<noteq> 0 \<and> now - timestamp e \<le> t
      \<and> real_of_int (now - timestamp e) \<le> 0.75 * real_of_int t"
  then show "cache_get now key c = (Some e, c)"
    by (auto simp: cache_get_def isExpired_def isStale_entry_def mult.commute)
qed

text \<open>
  The test of the specification: an entry with the time-to-live 1000 set at time 0 is
  returned as stored at time 750, returned stale and queued at time 800, and removed at
  time 1001.
\<close>

lemma cache_get_nonzero_ttl_example:
  "cache_get 0 ''zz'' twoKeyCache = (None, twoKeyCache) \<and>
   fst (cache_get 1001 ''a'' twoKeyCache) = None \<and>
   fst (cache_get 800 ''a'' twoKeyCache) = Some (sampleEntry 0 (Fin 1000) [''users''] True) \<and>
   ''a'' \<in> set (revalidationQueue (snd (cache_get 800 ''a'' twoKeyCache))) \<and>
   cache_get 750 ''a'' twoKeyCache = (Some (sampleEntry 0 (Fin 1000) [''users''] False), twoKeyCache)"
proof -
  have a: "map_of (cache twoKeyCache) ''a'' = Some (sampleEntry 0 (Fin 1000) [''users''] False)"
    and z: "map_of (cache twoKeyCache) ''zz'' = None"
    by (simp_all add: twoKeyCache_def cache_set_def emptyCache_def)
  have t: "ttl (sampleEntry 0 (Fin 1000) [''users''] False) = Fin 1000"
    and s: "timestamp (sampleEntry 0 (Fin 1000) [''users''] False) = 0"
    and f: "(sampleEntry 0 (Fin 1000) [''users''] False)\<lparr>isStale := True\<rparr>
      = sampleEntry 0 (Fin 1000) [''users''] True"
    by (simp_all add: sampleEntry_def)
  show ?thesis
    using cache_get_nonzero_ttl [of twoKeyCache "''zz''" 0 _ 0]
      cache_get_nonzero_ttl [of twoKeyCache "''a''" 1001 "sampleEntry 0 (Fin 1000) [''users''] False" 1000]
      cache_get_nonzero_ttl [of twoKeyCache "''a''" 800 "sampleEntry 0 (Fin 1000) [''users''] False" 1000]
      cache_get_nonzero_ttl [of twoKeyCache "''a''" 750 "sampleEntry 0 (Fin 1000) [''users''] False" 1000]
      a z t s f
    by simp
qed

text \<open>
  The times-to-live that \<^verbatim>\<open>createCacheEntry\<close> gives to the named strategies: the
  strategies \<^verbatim>\<open>'no-cache'\<close> and \<^verbatim>\<open>'revalidate-on-mount'\<close> get the time-to-live 0.
\<close>

lemma getTTLFromStrategy_values:
  "getTTLFromStrategy ''no-cache'' = Fin 0 \<and>
   getTTLFromStrategy ''force-cache'' = Infinity \<and>
   getTTLFromStrategy ''stale-while-revalidate'' = Fin 60000 \<and>
   getTTLFromStrategy ''revalidate-on-mount'' = Fin 0"
  by (simp add: getTTLFromStrategy_def)

text \<open>
  Claim C5 does not hold of the code for an entry whose time-to-live is 0. The entry that
  \<^verbatim>\<open>createCacheEntry\<close> makes for the strategy \<^verbatim>\<open>'revalidate-on-mount'\<close> has the
  time-to-live 0. One millisecond after its timestamp its age exceeds three quarters of
  its time-to-live and it is not expired, yet \<^verbatim>\<open>isStale\<close> answers no: \<^verbatim>\<open>get\<close> returns the
  entry with the stale flag clear, queues no key and sets no timer.
\<close>

theorem revalidate_on_mount_entry_not_marked_stale:
  "ttl onMountEntry = Fin 0 \<and>
   map_of (cache onMountCache) ''k'' = Some onMountEntry \<and>
   \<not> isExpired 1 onMountEntry \<and>
   real_of_int (1 - timestamp onMountEntry) > 0.75 * 0 \<and>
   \<not> isStale_entry 1 onMountEntry \<and>
   cache_get 1 ''k'' onMountCache = (Some onMountEntry, onMountCache) \<and>
   \<not> isStale onMountEntry \<and>
   revalidationQueue onMountCache = [] \<and> timers onMountCache = 0"
  by (simp add: onMountCache_def onMountEntry_def createCacheEntry_def getTTLFromStrategy_def
      cache_set_def emptyCache_def cache_get_def isExpired_def isStale_entry_def)

text \<open>
  Claim C6 does not hold of the code. The entry that \<^verbatim>\<open>createCacheEntry\<close> makes for the
  strategy \<^verbatim>\<open>'no-cache'\<close> has the time-to-live 0; read 1000000 milliseconds after its
  timestamp, it is returned as it was stored, with the stale flag clear, and no key is
  queued for revalidation: it is served exactly as the entry of the strategy
  \<^verbatim>\<open>'force-cache'\<close>, whose time-to-live is \<^verbatim>\<open>Infinity\<close>.
\<close>

theorem no_cache_entry_served_fresh:
  "ttl noCacheEntry = Fin 0 \<and>
   cache_get 1000000 ''k'' noCacheCache = (Some noCacheEntry, noCacheCache) \<and>
   \<not> isStale noCacheEntry \<and> revalidationQueue noCacheCache = [] \<and>
   ttl forceCacheEntry = Infinity \<and>
   cache_get 1000000 ''k'' forceCacheCache = (Some forceCacheEntry, forceCacheCache) \<and>
   \<not> isStale forceCacheEntry"
  by (simp add: noCacheCache_def noCacheEntry_def forceCacheCache_def forceCacheEntry_def
      createCacheEntry_def getTTLFromStrategy_def cache_set_def emptyCache_def cache_get_def
      isExpired_def isStale_entry_def)

text \<open>
  The extent of the defect: the guards of \<^verbatim>\<open>isExpired\<close> and \<^verbatim>\<open>isStale\<close> answer no for
  the time-to-live 0 before any comparison, so every entry with the time-to-live 0 is
  returned as it is stored, at every time, and the cache is left unchanged.
\<close>

lemma zero_ttl_entry_returned_as_stored:
  "map_of (cache c) key = Some e \<Longrightarrow> ttl e = Fin 0 \<Longrightarrow> cache_get now key c = (Some e, c)"
  by (simp add: cache_get_def isExpired_def isStale_entry_def)

text \<open>
  The part of claim C6 about the sentinel holds: an entry with the time-to-live
  \<^verbatim>\<open>Infinity\<close> is never expired by time, and \<^verbatim>\<open>get\<close> never removes it.
\<close>

lemma infinite_ttl_never_expires:
  "ttl e = Infinity \<Longrightarrow> \<not> isExpired now e"
  "map_of (cache c) key = Some e \<Longrightarrow> ttl e = Infinity \<Longrightarrow> cache_get now key c = (Some e, c)"
  by (simp_all add: cache_get_def isExpired_def isStale_entry_def)

section \<open>The cache: revalidation\<close>

lemma fold_revalidateEntry_cache [simp]:
  "cache (fold revalidateEntry ks c) = cache c"
  by (induction ks arbitrary: c) (simp_all add: revalidateEntry_def)

lemma fold_revalidateEntry_flag [simp]:
  "isRevalidating (fold revalidateEntry ks c) = isRevalidating c"
  by (induction ks arbitrary: c) (simp_all add: revalidateEntry_def)

lemma fold_revalidateEntry_log [simp]:
  "revalidated (fold revalidateEntry ks c) = revalidated c @ ks"
  by (induction ks arbitrary: c) (simp_all add: revalidateEntry_def)

lemma distinct_toRevalidate:
  "distinct (map fst es) \<Longrightarrow> distinct (map fst (toRevalidate tgs es))"
  by (cases tgs) (simp_all add: toRevalidate_def distinct_map_filter)

text \<open>
  Claim C7. A call of \<^verbatim>\<open>revalidate\<close> made while the flag \<^verbatim>\<open>isRevalidating\<close> is set
  returns at once and changes nothing: not the entries, not the queue, and the per-entry
  callback runs for no key. So when a first call is made with the flag clear, it sets the
  flag, and a second call before the first has settled is a no-op: after both, the
  per-entry callback has run once for each entry the first call selected, in the order of
  the map, and the entries are as they were. The keys of a map are distinct, and so are
  the keys selected.
\<close>

theorem revalidate_in_flight_is_noop:
  "(isRevalidating c \<longrightarrow> revalidate tgs c = c) \<and>
   (\<not> isRevalidating c \<longrightarrow>
      isRevalidating (revalidate tgs1 c) \<and>
      revalidate tgs2 (revalidate tgs1 c) = revalidate tgs1 c \<and>
      cache (revalidate tgs1 c) = cache c \<and>
      revalidated (revalidate tgs2 (revalidate tgs1 c))
        = revalidated c @ map fst (toRevalidate tgs1 (cache c)) \<and>
      (distinct (map fst (cache c)) \<longrightarrow> distinct (map fst (toRevalidate tgs1 (cache c)))))"
  by (simp add: revalidate_def distinct_toRevalidate)

theorem revalidate_in_flight_is_noop_witness:
  "\<not> isRevalidating twoKeyCache \<and>
   isRevalidating (revalidate None twoKeyCache) \<and>
   revalidate (Some [''users'']) (revalidate None twoKeyCache) = revalidate None twoKeyCache \<and>
   revalidated (revalidate (Some [''users'']) (revalidate None twoKeyCache)) = [''a'', ''b''] \<and>
   distinct (map fst (cache twoKeyCache))"
proof -
  have idle: "\<not> isRevalidating twoKeyCache"
    by (simp add: twoKeyCache_def cache_set_def emptyCache_def)
  have keys: "map fst (toRevalidate None (cache twoKeyCache)) = [''a'', ''b'']"
    by (simp add: twoKeyCache_def cache_set_def emptyCache_def toRevalidate_def)
  have log: "revalidated twoKeyCache = []"
    by (simp add: twoKeyCache_def cache_set_def emptyCache_def)
  have dist: "distinct (map fst (cache twoKeyCache))"
    by (simp add: twoKeyCache_def cache_set_def emptyCache_def)
  show ?thesis
    using revalidate_in_flight_is_noop [of twoKeyCache None None "Some [''users'']"]
      idle keys log dist
    by auto
qed

end
